theory Spec2Isabelle
  imports Complex_Main "HOL-Library.Multiset"
begin

section \<open>Data model\<close>

text \<open>
  The fields of a \<open>Video\<close> object that the ranker, the allocator, the carousel and the
  prefetch cache read. The field \<open>id\<close> is called \<open>v_id\<close> here. A falsy \<open>video_url\<close>
  (undefined or the empty string) is the empty string.
\<close>

record video =
  v_id :: string
  category :: string
  is_trending :: bool
  video_type :: string
  video_url :: string

text \<open>An entry of \<open>UserInteractions.watchHistory\<close>: \<open>{ id, progress }\<close>.\<close>

record watch_item =
  w_id :: string
  progress :: real

record user_interactions =
  likedIds :: "string list"
  dislikedIds :: "string list"
  watchHistory :: "watch_item list"

section \<open>Math.random and Array.prototype.sort\<close>

text \<open>
  \<open>Math.random()\<close> is a stream of numbers: \<open>rnd k\<close> is the value of the \<open>k\<close>-th call.
  Every function that draws random numbers takes the number of calls made so far and
  returns the number of calls made when it is done.
\<close>

type_synonym rand = "nat \<Rightarrow> real"

text \<open>
  A comparison function \<open>(a, b) => number\<close> that may call \<open>Math.random()\<close>.
\<close>

type_synonym 'a comparefn = "'a \<Rightarrow> 'a \<Rightarrow> nat \<Rightarrow> real \<times> nat"

text \<open>
  \<open>Array.prototype.sort(comparefn)\<close>. ECMAScript leaves the algorithm and the calls of
  \<open>comparefn\<close> to the engine; it asks for a permutation of the array, and for the
  stable sorted order when \<open>comparefn\<close> is consistent. The engine here is a stable
  insertion sort: the elements are taken in array order, and each one \<open>x\<close> is moved in
  front of the first element \<open>y\<close> of the sorted part that \<open>comparefn\<close> puts strictly
  after it, \<open>comparefn(y, x) > 0\<close>, the earlier element being the first argument. An
  engine that passes the later element first (and tests \<open>comparefn(x, y) < 0\<close>) hands the
  random draws of a comparison to the two elements in the other order.
\<close>

fun js_insert :: "'a comparefn \<Rightarrow> 'a \<Rightarrow> 'a list \<Rightarrow> nat \<Rightarrow> 'a list \<times> nat" where
  "js_insert cmp x [] n = ([x], n)"
| "js_insert cmp x (y # ys) n =
     (case cmp y x n of (c, n') \<Rightarrow>
        if c > 0 then (x # y # ys, n')
        else (case js_insert cmp x ys n' of (zs, n'') \<Rightarrow> (y # zs, n'')))"

fun js_sort_from :: "'a comparefn \<Rightarrow> 'a list \<Rightarrow> 'a list \<Rightarrow> nat \<Rightarrow> 'a list \<times> nat" where
  "js_sort_from cmp acc [] n = (acc, n)"
| "js_sort_from cmp acc (x # xs) n =
     (case js_insert cmp x acc n of (acc', n') \<Rightarrow> js_sort_from cmp acc' xs n')"

definition js_sort :: "'a comparefn \<Rightarrow> 'a list \<Rightarrow> nat \<Rightarrow> 'a list \<times> nat" where
  "js_sort cmp xs n = js_sort_from cmp [] xs n"

section \<open>Recommendation ranker\<close>

text \<open>
  \<open>seenIds\<close> of \<open>applySmartRecommendations\<close>: liked, disliked, and watched for more
  than 10 percent.
\<close>

definition seenIds :: "user_interactions \<Rightarrow> string set" where
  "seenIds ui =
     set (likedIds ui) \<union> set (dislikedIds ui)
       \<union> set (map w_id (filter (\<lambda>w. progress w > 0.1) (watchHistory ui)))"

text \<open>
  The scores are JavaScript numbers, IEEE doubles: every arithmetic operation returns
  its exact result rounded to a double. \<open>rd\<close> is that rounding. What is used of it
  is that it is monotone and leaves the natural numbers up to \<open>2^53\<close>, which are doubles,
  as they are. \<open>exact\<close> is arithmetic without rounding.
\<close>

definition rounds :: "(real \<Rightarrow> real) \<Rightarrow> bool" where
  "rounds rd \<longleftrightarrow>
     (\<forall>x y. x \<le> y \<longrightarrow> rd x \<le> rd y) \<and> (\<forall>m::nat. m \<le> 2 ^ 53 \<longrightarrow> rd (real m) = real m)"

definition exact :: "real \<Rightarrow> real" where
  "exact x = x"

text \<open>
  \<open>scoreVideo\<close> of src/MainContent.tsx: a random base \<open>Math.random() * 10\<close>, plus 20 for
  a category among the user's interests (\<open>SmartBrain.getTopInterests()\<close>, a parameter
  here), plus 5 for a trending video.
\<close>

definition scoreVideo ::
  "(real \<Rightarrow> real) \<Rightarrow> rand \<Rightarrow> string list \<Rightarrow> video \<Rightarrow> nat \<Rightarrow> real \<times> nat" where
  "scoreVideo rd rnd userInterests v n =
     (let score = rd (rnd n * 10);
          score = (if category v \<in> set userInterests then rd (score + 20) else score);
          score = (if is_trending v then rd (score + 5) else score)
      in (score, Suc n))"

text \<open>
  The comparison \<open>(a, b) => scoreVideo(b) - scoreVideo(a)\<close>; \<open>b\<close> is scored first. The
  sort reads only the sign of the result, and the difference of two doubles has the
  sign of their exact difference, which stands here.
\<close>

definition score_cmp :: "(video \<Rightarrow> nat \<Rightarrow> real \<times> nat) \<Rightarrow> video comparefn" where
  "score_cmp score a b n =
     (case score b n of (sb, n1) \<Rightarrow>
      case score a n1 of (sa, n2) \<Rightarrow> (sb - sa, n2))"

definition applySmartRecommendations ::
  "(real \<Rightarrow> real) \<Rightarrow> rand \<Rightarrow> string list \<Rightarrow> video list \<Rightarrow> user_interactions \<Rightarrow> nat \<Rightarrow> video list \<times> nat" where
  "applySmartRecommendations rd rnd userInterests videos userInteractions n =
     (if videos = [] then ([], n)
      else
        let seen = seenIds userInteractions;
            unseenVideos = filter (\<lambda>v. v_id v \<notin> seen) videos;
            seenVideos = filter (\<lambda>v. v_id v \<in> seen) videos
        in case js_sort (score_cmp (scoreVideo rd rnd userInterests)) unseenVideos n of
             (sortedUnseen, n1) \<Rightarrow>
           case js_sort (score_cmp (scoreVideo rd rnd userInterests)) seenVideos n1 of
             (sortedSeen, n2) \<Rightarrow> (sortedUnseen @ sortedSeen, n2))"

text \<open>
  The variant of src/unnamed/part_005: the unseen videos are first shuffled with the
  comparison \<open>() => Math.random() - 0.5\<close> (of which, again, only the sign is read),
  and the random part of the score is \<open>Math.random() * 5\<close> and added last.
\<close>

definition shuffle_cmp :: "rand \<Rightarrow> 'a comparefn" where
  "shuffle_cmp rnd a b n = (rnd n - 0.5, Suc n)"

definition scoreVideo_p5 ::
  "(real \<Rightarrow> real) \<Rightarrow> rand \<Rightarrow> string list \<Rightarrow> video \<Rightarrow> nat \<Rightarrow> real \<times> nat" where
  "scoreVideo_p5 rd rnd userInterests v n =
     (let score = 0;
          score = (if category v \<in> set userInterests then rd (score + 20) else score);
          score = (if is_trending v then rd (score + 5) else score);
          score = rd (score + rd (rnd n * 5))
      in (score, Suc n))"

definition applySmartRecommendations_p5 ::
  "(real \<Rightarrow> real) \<Rightarrow> rand \<Rightarrow> string list \<Rightarrow> video list \<Rightarrow> user_interactions \<Rightarrow> nat \<Rightarrow> video list \<times> nat" where
  "applySmartRecommendations_p5 rd rnd userInterests videos userInteractions n =
     (if videos = [] then ([], n)
      else
        let seen = seenIds userInteractions;
            unseenVideos = filter (\<lambda>v. v_id v \<notin> seen) videos;
            seenVideos = filter (\<lambda>v. v_id v \<in> seen) videos
        in case js_sort (shuffle_cmp rnd) unseenVideos n of
             (unseenVideos, n0) \<Rightarrow>
           case js_sort (score_cmp (scoreVideo_p5 rd rnd userInterests)) unseenVideos n0 of
             (sortedUnseen, n1) \<Rightarrow>
           case js_sort (score_cmp (scoreVideo_p5 rd rnd userInterests)) seenVideos n1 of
             (sortedSeen, n2) \<Rightarrow> (sortedUnseen @ sortedSeen, n2))"

text \<open>
  The fixed part of a score: the interest bonus and the trending bonus. Both
  \<open>scoreVideo\<close> functions add a random part to it.
\<close>

definition interest_bonus :: "string list \<Rightarrow> video \<Rightarrow> real" where
  "interest_bonus userInterests v = (if category v \<in> set userInterests then 20 else 0)"

definition bonus :: "string list \<Rightarrow> video \<Rightarrow> real" where
  "bonus userInterests v =
     interest_bonus userInterests v + (if is_trending v then 5 else 0)"

text \<open>
  No unseen video after a seen one: for positions \<open>i < j\<close> of the output, if the video
  at \<open>i\<close> is seen then so is the video at \<open>j\<close>.
\<close>

definition unseen_first :: "string set \<Rightarrow> video list \<Rightarrow> bool" where
  "unseen_first seen out \<longleftrightarrow> sorted_wrt (\<lambda>a b. v_id a \<in> seen \<longrightarrow> v_id b \<in> seen) out"

text \<open>
  Within the unseen videos and within the seen videos, a video with the larger value
  of \<open>tier\<close> is never behind one with a smaller value.
\<close>

definition tiers_respected :: "string set \<Rightarrow> (video \<Rightarrow> real) \<Rightarrow> video list \<Rightarrow> bool" where
  "tiers_respected seen tier out \<longleftrightarrow>
     sorted_wrt (\<lambda>a b. (v_id a \<in> seen \<longleftrightarrow> v_id b \<in> seen) \<longrightarrow> tier b \<le> tier a) out"

text \<open>The values \<open>Math.random()\<close> can return.\<close>

definition random_range :: "rand \<Rightarrow> bool" where
  "random_range rnd \<longleftrightarrow> (\<forall>k. 0 \<le> rnd k \<and> rnd k < 1)"

subsection \<open>Example inputs\<close>

definition mk_video :: "string \<Rightarrow> string \<Rightarrow> bool \<Rightarrow> video" where
  "mk_video i ty tr =
     \<lparr>v_id = i, category = ''horror'', is_trending = tr, video_type = ty,
      video_url = ''https://cdn.example/'' @ i @ ''.mp4''\<rparr>"

definition no_interactions :: user_interactions where
  "no_interactions = \<lparr>likedIds = [], dislikedIds = [], watchHistory = []\<rparr>"

definition disliked_B :: user_interactions where
  "disliked_B = \<lparr>likedIds = [], dislikedIds = [''B''], watchHistory = []\<rparr>"

text \<open>
  Random streams: all draws 0, and one draw of 0.9 or of 0.75 among zeros. The scores
  of a draw of 0 or of 0.75 are the same in doubles and in exact arithmetic.
\<close>

definition rnd_zero :: rand where
  "rnd_zero k = 0"

definition rnd_first_high :: rand where
  "rnd_first_high k = (if k = 0 then 9 / 10 else 0)"

definition rnd_second_high :: rand where
  "rnd_second_high k = (if k = 1 then 9 / 10 else 0)"

definition rnd_first_075 :: rand where
  "rnd_first_075 k = (if k = 0 then 3 / 4 else 0)"

definition rnd_second_075 :: rand where
  "rnd_second_075 k = (if k = 1 then 3 / 4 else 0)"

section \<open>Section content allocator\<close>

text \<open>
  A layout section: \<open>section.id\<close> (falsy when empty) and \<open>section.type\<close>.
\<close>

record layout_section =
  s_id :: string
  s_type :: string

text \<open>The decimal digits of an index, for the template string \<open>section-${index}\<close>.\<close>

fun string_of_nat :: "nat \<Rightarrow> string" where
  "string_of_nat n =
     (if n < 10 then [char_of (48 + n)]
      else string_of_nat (n div 10) @ [char_of (48 + n mod 10)])"

text \<open>\<open>section.id || `section-${index}`\<close>\<close>

definition section_key :: "layout_section \<Rightarrow> nat \<Rightarrow> string" where
  "section_key s index = (if s_id s = [] then ''section-'' @ string_of_nat index else s_id s)"

text \<open>The comparison \<open>() => 0.5 - Math.random()\<close> of the recycling shuffle.\<close>

definition recycle_cmp :: "rand \<Rightarrow> 'a comparefn" where
  "recycle_cmp rnd a b n = (0.5 - rnd n, Suc n)"

text \<open>
  \<open>pickVideos\<close> of src/src/CustomDynamicLayout.tsx. It reads and extends the set
  \<open>usedIds\<close> shared by the pass; the result is the batch, the new \<open>usedIds\<close> and the
  number of random draws made.
\<close>

definition pickVideos ::
  "rand \<Rightarrow> video list \<Rightarrow> nat \<Rightarrow> string set \<Rightarrow> nat \<Rightarrow> video list \<times> string set \<times> nat" where
  "pickVideos rnd pool cnt used n =
     (if pool = [] then ([], used, n)
      else
        let available = filter (\<lambda>v. v_id v \<notin> used) pool;
            selected = take cnt available;
            used' = used \<union> set (map v_id selected)
        in if length selected < cnt then
             let needed = cnt - length selected
             in case js_sort (recycle_cmp rnd) (filter (\<lambda>v. v \<notin> set selected) pool) n of
                  (recycled, n') \<Rightarrow> (selected @ take needed recycled, used', n')
           else (selected, used', n))"

text \<open>
  The pool and the count that the \<open>forEach\<close> body of \<open>distributedContent\<close> passes to
  \<open>pickVideos\<close> for a section type; \<open>None\<close> for a type that no branch handles.
\<close>

definition shortsOnly :: "video list \<Rightarrow> video list" where
  "shortsOnly videos = filter (\<lambda>v. video_type v = ''Shorts'') videos"

definition longsOnly :: "video list \<Rightarrow> video list" where
  "longsOnly videos = filter (\<lambda>v. video_type v = ''Long Video'') videos"

definition section_demand :: "video list \<Rightarrow> string \<Rightarrow> (video list \<times> nat) option" where
  "section_demand videos ty =
     (if ty = ''long_video'' then Some (longsOnly videos, 1)
      else if ty = ''shorts_grid'' then Some (shortsOnly videos, 4)
      else if ty = ''long_slider'' then Some (longsOnly videos, 10)
      else if ty = ''slider_left'' \<or> ty = ''slider_right'' then Some (videos, 10)
      else None)"

text \<open>The state of one pass: \<open>usedIds\<close>, \<open>distribution\<close> and the random draws made.\<close>

record alloc_state =
  usedIds :: "string set"
  distribution :: "string \<rightharpoonup> video list"
  draws :: nat

definition alloc_section :: "rand \<Rightarrow> video list \<Rightarrow> layout_section \<Rightarrow> nat \<Rightarrow> alloc_state \<Rightarrow> alloc_state" where
  "alloc_section rnd videos s index st =
     (case section_demand videos (s_type s) of
        None \<Rightarrow> st
      | Some (pool, cnt) \<Rightarrow>
          (case pickVideos rnd pool cnt (usedIds st) (draws st) of
             (batch, used', n') \<Rightarrow>
               \<lparr>usedIds = used',
                distribution = (distribution st)(section_key s index \<mapsto> batch),
                draws = n'\<rparr>))"




text \<open>
  \<open>getUniqueBatch\<close> of the home layout (src/MainContent.tsx and src/unnamed/part_003):
  the first \<open>count\<close> unused videos, marked used; nothing is recycled.
\<close>

definition getUniqueBatch :: "video list \<Rightarrow> nat \<Rightarrow> string set \<Rightarrow> video list \<times> string set" where
  "getUniqueBatch source cnt used =
     (let available = filter (\<lambda>v. v_id v \<notin> used) source;
          selected = take cnt available
      in (selected, used \<union> set (map v_id selected)))"







definition batch_ids :: "video list \<Rightarrow> string set" where
  "batch_ids b = set (map v_id b)"


subsection \<open>Example pool and sections\<close>

definition six_shorts :: "video list" where
  "six_shorts = map (\<lambda>i. mk_video i ''Shorts'' False) [''a'', ''b'', ''c'', ''d'', ''e'', ''f'']"

definition grid_two :: layout_section where
  "grid_two = \<lparr>s_id = ''two'', s_type = ''shorts_grid''\<rparr>"

definition after_first_grid :: alloc_state where
  "after_first_grid =
     \<lparr>usedIds = {''a'', ''b'', ''c'', ''d''}, distribution = Map.empty, draws = 0\<rparr>"





section \<open>Circular scroll buffer\<close>

text \<open>
  \<open>displayVideos\<close> of \<open>InteractiveMarquee\<close>. In src/MainContent.tsx a list of fewer than
  five videos is spread four times, in src/unnamed/part_003 five times; a longer list
  three times in both.
\<close>

definition displayVideos :: "'a list \<Rightarrow> 'a list" where
  "displayVideos videos =
     (if videos = [] then []
      else if length videos < 5 then videos @ videos @ videos @ videos
      else videos @ videos @ videos)"

definition displayVideos_p3 :: "'a list \<Rightarrow> 'a list" where
  "displayVideos_p3 videos =
     (if videos = [] then []
      else if length videos < 5 then videos @ videos @ videos @ videos @ videos
      else videos @ videos @ videos)"

text \<open>
  The scroll container as \<open>animate\<close> reads and writes it. Offsets are real numbers, and
  the browser's clamping of \<open>scrollLeft\<close> to the scrollable range is left out.
\<close>

record container =
  scrollLeft :: real
  scrollWidth :: real

text \<open>\<open>animate\<close> of src/MainContent.tsx, one animation frame.\<close>

definition animate :: "bool \<Rightarrow> real \<Rightarrow> container \<Rightarrow> container" where
  "animate isDragging internalSpeed c =
     (if \<not> isDragging then
        let c = c\<lparr>scrollLeft := scrollLeft c + internalSpeed\<rparr>
        in if scrollWidth c > 0 then
             let thirdWidth = scrollWidth c / 3
             in if internalSpeed > 0 then
                  (if scrollLeft c \<ge> thirdWidth * 2
                   then c\<lparr>scrollLeft := scrollLeft c - thirdWidth\<rparr> else c)
                else
                  (if scrollLeft c \<le> 1 then c\<lparr>scrollLeft := scrollLeft c + thirdWidth\<rparr>
                   else if scrollLeft c \<ge> thirdWidth * 2.5
                   then c\<lparr>scrollLeft := scrollLeft c - thirdWidth\<rparr> else c)
           else c
      else c)"

text \<open>\<open>animate\<close> of src/unnamed/part_003.\<close>

definition animate_p3 :: "bool \<Rightarrow> real \<Rightarrow> container \<Rightarrow> container" where
  "animate_p3 isDragging internalSpeed c =
     (if \<not> isDragging then
        let c = c\<lparr>scrollLeft := scrollLeft c + internalSpeed\<rparr>
        in if scrollWidth c > 0 then
             let singleSetWidth = scrollWidth c / 3
             in if internalSpeed > 0 \<and> scrollLeft c \<ge> singleSetWidth * 2
                then c\<lparr>scrollLeft := scrollLeft c - singleSetWidth\<rparr>
                else if internalSpeed < 0 \<and> scrollLeft c \<le> 10
                then c\<lparr>scrollLeft := scrollLeft c + singleSetWidth\<rparr>
                else c
           else c
      else c)"

text \<open>
  The surface that the container scrolls over: the items of the display list in a row,
  each \<open>item_width\<close> wide, \<open>gap\<close> apart, with \<open>pad\<close> before the first and after the last
  (the classes \<open>flex gap-3 px-6\<close> of the container and \<open>w-24 shrink-0\<close> or
  \<open>w-40 shrink-0\<close> of an item). \<open>content_at\<close> is what the surface shows at an offset:
  a video and the distance from its left edge, or nothing in a gap or in the padding.
\<close>

record layout =
  item_width :: real
  gap :: real
  pad :: real

fun content_from :: "layout \<Rightarrow> 'a list \<Rightarrow> real \<Rightarrow> ('a \<times> real) option" where
  "content_from l [] x = None"
| "content_from l (v # vs) x =
     (if x < 0 then None
      else if x < item_width l then Some (v, x)
      else content_from l vs (x - (item_width l + gap l)))"

definition content_at :: "layout \<Rightarrow> 'a list \<Rightarrow> real \<Rightarrow> ('a \<times> real) option" where
  "content_at l items x = content_from l items (x - pad l)"

definition surface_width :: "layout \<Rightarrow> 'a list \<Rightarrow> real" where
  "surface_width l items =
     (if items = [] then 0
      else 2 * pad l + real (length items) * item_width l + real (length items - 1) * gap l)"

text \<open>
  Shorts items of 96 pixels laid edge to edge, and the same with the gap of 12 and the
  padding of 24 pixels of the container's classes.
\<close>

definition edge_to_edge :: layout where
  "edge_to_edge = \<lparr>item_width = 96, gap = 0, pad = 0\<rparr>"

definition with_gaps :: layout where
  "with_gaps = \<lparr>item_width = 96, gap = 12, pad = 24\<rparr>"

section \<open>Prefetch buffering cache\<close>

text \<open>
  The environment of the prefetcher: \<open>navigator.onLine\<close>; \<open>fetch\<close>, which rejects
  (\<open>None\<close>) or resolves with a response; and the Cache API, any call of which may reject.
\<close>

datatype exn = NetworkError | StorageError

datatype storage_op = Open | Match string | Put string | Keys | Delete string

record response =
  status :: nat
  body :: string

record env =
  onLine :: bool
  fetch :: "string \<Rightarrow> response option"
  storage_fails :: "storage_op \<Rightarrow> bool"

text \<open>\<open>response.ok\<close>: a status from 200 to 299.\<close>

definition ok :: "response \<Rightarrow> bool" where
  "ok r \<longleftrightarrow> 200 \<le> status r \<and> status r \<le> 299"

text \<open>
  The cache store: the stored bodies by URL, oldest first, as \<open>cache.keys()\<close> lists
  them. \<open>put\<close> replaces an entry of the same URL and adds the new one at the end.
\<close>

type_synonym cache = "(string \<times> string) list"

definition cache_keys :: "cache \<Rightarrow> string list" where
  "cache_keys c = map fst c"

definition cache_put :: "cache \<Rightarrow> string \<Rightarrow> string \<Rightarrow> cache" where
  "cache_put c url b = filter (\<lambda>e. fst e \<noteq> url) c @ [(url, b)]"


text \<open>\<open>url.startsWith('http')\<close>\<close>

definition startsWith :: "string \<Rightarrow> string \<Rightarrow> bool" where
  "startsWith s p \<longleftrightarrow> take (length p) s = p"

text \<open>
  The \<open>try\<close> block of \<open>preloadVideoChunk\<close> (src/src/smartCache.ts): \<open>Inl\<close> is a throw,
  \<open>Inr\<close> the returned flag and the store.
\<close>

definition preloadVideoChunk_try :: "env \<Rightarrow> string \<Rightarrow> cache \<Rightarrow> exn + bool \<times> cache" where
  "preloadVideoChunk_try e url c =
     (if storage_fails e Open then Inl StorageError
      else if storage_fails e (Match url) then Inl StorageError
      else case map_of c url of
        Some m \<Rightarrow> Inr (True, c)
      | None \<Rightarrow>
          (case fetch e url of
             None \<Rightarrow> Inl NetworkError
           | Some r \<Rightarrow>
               if ok r \<or> status r = 206 then
                 (if storage_fails e (Put url) then Inl StorageError
                  else Inr (True, cache_put c url (body r)))
               else Inr (False, c)))"

text \<open>\<open>preloadVideoChunk\<close>: the guard, and the \<open>catch\<close> that turns a throw into \<open>false\<close>.\<close>

definition preloadVideoChunk :: "env \<Rightarrow> string \<Rightarrow> cache \<Rightarrow> exn + bool \<times> cache" where
  "preloadVideoChunk e url c =
     (if url = [] \<or> \<not> startsWith url ''http'' then Inr (False, c)
      else case preloadVideoChunk_try e url c of
        Inl x \<Rightarrow> Inr (False, c)
      | Inr r \<Rightarrow> Inr r)"

text \<open>
  The promises of \<open>priorityQueue.map(...)\<close>, run one after the other in queue order,
  and \<open>Promise.allSettled\<close>, which waits for all of them and ignores a rejection.
\<close>

fun settle_all :: "env \<Rightarrow> video list \<Rightarrow> cache \<Rightarrow> cache" where
  "settle_all e [] c = c"
| "settle_all e (v # vs) c =
     (if video_url v \<noteq> [] then
        (case preloadVideoChunk e (video_url v) c of
           Inl x \<Rightarrow> settle_all e vs c
         | Inr (flag, c') \<Rightarrow> settle_all e vs c')
      else settle_all e vs c)"

text \<open>
  \<open>initSmartBuffering\<close> of src/src/smartCache.ts: \<open>Inl\<close> would be a rejection of the
  promise it returns, \<open>Inr\<close> is the store when it resolves.
\<close>

definition initSmartBuffering :: "env \<Rightarrow> video list \<Rightarrow> cache \<Rightarrow> exn + cache" where
  "initSmartBuffering e videos c =
     (if \<not> onLine e \<or> videos = [] then Inr c
      else let priorityQueue = take 5 videos in Inr (settle_all e priorityQueue c))"

text \<open>
  \<open>bufferNext\<close> and \<open>initSmartBuffering\<close> of src/smartCache.ts: the queue is worked off
  one video after the other, there is no lookup before the fetch, and every throw of
  the \<open>try\<close> block is caught before the next video. The store is the one at the end of
  the chain.
\<close>

definition bufferNext_try :: "env \<Rightarrow> string \<Rightarrow> cache \<Rightarrow> exn + cache" where
  "bufferNext_try e publicURL c =
     (case fetch e publicURL of
        None \<Rightarrow> Inl NetworkError
      | Some r \<Rightarrow>
          if ok r \<or> status r = 206 then
            (if storage_fails e Open then Inl StorageError
             else if storage_fails e (Put publicURL) then Inl StorageError
             else Inr (cache_put c publicURL (body r)))
          else Inr c)"

fun bufferNext :: "env \<Rightarrow> video list \<Rightarrow> cache \<Rightarrow> cache" where
  "bufferNext e [] c = c"
| "bufferNext e (v # queue) c =
     (if video_url v = [] \<or> \<not> startsWith (video_url v) ''http'' then bufferNext e queue c
      else case bufferNext_try e (video_url v) c of
        Inl x \<Rightarrow> bufferNext e queue c
      | Inr c' \<Rightarrow> bufferNext e queue c')"

definition initSmartBuffering_seq :: "env \<Rightarrow> video list \<Rightarrow> cache \<Rightarrow> exn + cache" where
  "initSmartBuffering_seq e videos c =
     (if \<not> onLine e \<or> videos = [] then Inr c
      else let queue = take 5 videos in Inr (bufferNext e queue c))"

text \<open>
  A URL that a prefetch stores: it starts with \<open>http\<close>, the fetch resolves with an ok
  or 206 response, and the cache calls do not fail.
\<close>

definition cacheable :: "env \<Rightarrow> string \<Rightarrow> bool" where
  "cacheable e url \<longleftrightarrow>
     url \<noteq> [] \<and> startsWith url ''http''
     \<and> \<not> storage_fails e Open \<and> \<not> storage_fails e (Match url) \<and> \<not> storage_fails e (Put url)
     \<and> (case fetch e url of None \<Rightarrow> False | Some r \<Rightarrow> ok r \<or> status r = 206)"

text \<open>The same for src/smartCache.ts, which makes no \<open>match\<close> call.\<close>

definition cacheable_seq :: "env \<Rightarrow> string \<Rightarrow> bool" where
  "cacheable_seq e url \<longleftrightarrow>
     url \<noteq> [] \<and> startsWith url ''http''
     \<and> \<not> storage_fails e Open \<and> \<not> storage_fails e (Put url)
     \<and> (case fetch e url of None \<Rightarrow> False | Some r \<Rightarrow> ok r \<or> status r = 206)"




subsection \<open>Example environment\<close>

text \<open>Five videos with the URLs u1 to u5; the fetch of u3 rejects, the others get a 200.\<close>

definition url_of :: "string \<Rightarrow> string" where
  "url_of i = ''https://cdn.example/'' @ i @ ''.mp4''"

definition five_videos :: "video list" where
  "five_videos = map (\<lambda>i. mk_video i ''Shorts'' False) [''u1'', ''u2'', ''u3'', ''u4'', ''u5'']"

definition third_fails :: env where
  "third_fails =
     \<lparr>onLine = True,
      fetch = (\<lambda>url. if url = url_of ''u3'' then None
                      else Some \<lparr>status = 200, body = ''chunk''\<rparr>),
      storage_fails = (\<lambda>op. False)\<rparr>"



section \<open>Sorting lemmas\<close>

lemma mset_js_insert: "mset (fst (js_insert cmp x ys n)) = add_mset x (mset ys)"
proof (induction ys arbitrary: n)
  case Nil
  show ?case by simp
next
  case (Cons y ys)
  obtain c n' where c: "cmp y x n = (c, n')"
    by (cases "cmp y x n")
  obtain zs n'' where zs: "js_insert cmp x ys n' = (zs, n'')"
    by (cases "js_insert cmp x ys n'")
  have "mset zs = add_mset x (mset ys)"
    using Cons.IH [of n'] zs by simp
  then show ?case
    using c zs by simp
qed

lemma mset_js_sort_from: "mset (fst (js_sort_from cmp acc xs n)) = mset acc + mset xs"
proof (induction xs arbitrary: acc n)
  case Nil
  show ?case by simp
next
  case (Cons x xs)
  obtain acc' n' where ins: "js_insert cmp x acc n = (acc', n')"
    by (cases "js_insert cmp x acc n")
  have "mset acc' = add_mset x (mset acc)"
    using mset_js_insert [of cmp x acc n] ins by simp
  then show ?case
    using Cons.IH [of acc' n'] ins by simp
qed

lemma mset_js_sort: "mset (fst (js_sort cmp xs n)) = mset xs"
  by (simp add: js_sort_def mset_js_sort_from)

lemma set_js_sort: "set (fst (js_sort cmp xs n)) = set xs"
  using mset_js_sort [of cmp xs n] by (metis set_mset_mset)

section \<open>Recommendation ranker: unseen before seen\<close>

lemma sorted_wrt_all: "(\<And>x y. x \<in> set xs \<Longrightarrow> y \<in> set xs \<Longrightarrow> P x y) \<Longrightarrow> sorted_wrt P xs"
  by (induction xs) auto

lemma unseen_first_append:
  assumes "\<forall>v\<in>set us. v_id v \<notin> seen" and "\<forall>v\<in>set ss. v_id v \<in> seen"
  shows "unseen_first seen (us @ ss)"
proof -
  have "sorted_wrt (\<lambda>a b. v_id a \<in> seen \<longrightarrow> v_id b \<in> seen) us"
    using assms(1) by (intro sorted_wrt_all) simp
  moreover have "sorted_wrt (\<lambda>a b. v_id a \<in> seen \<longrightarrow> v_id b \<in> seen) ss"
    using assms(2) by (intro sorted_wrt_all) simp
  ultimately show ?thesis
    using assms by (simp add: unseen_first_def sorted_wrt_append)
qed

lemma mset_partition_seen:
  "mset (filter (\<lambda>v. v_id v \<notin> seen) videos) + mset (filter (\<lambda>v. v_id v \<in> seen) videos)
     = mset videos"
  by (induction videos) auto

lemma applySmartRecommendations_split:
  "\<exists>us ss. fst (applySmartRecommendations rd rnd ints videos ui n) = us @ ss
     \<and> mset us = mset (filter (\<lambda>v. v_id v \<notin> seenIds ui) videos)
     \<and> mset ss = mset (filter (\<lambda>v. v_id v \<in> seenIds ui) videos)"
proof (cases "videos = []")
  case True
  then show ?thesis by (simp add: applySmartRecommendations_def)
next
  case False
  let ?cmp = "score_cmp (scoreVideo rd rnd ints)"
  let ?U = "filter (\<lambda>v. v_id v \<notin> seenIds ui) videos"
  let ?S = "filter (\<lambda>v. v_id v \<in> seenIds ui) videos"
  obtain us n1 where us: "js_sort ?cmp ?U n = (us, n1)"
    by (cases "js_sort ?cmp ?U n")
  obtain ss n2 where ss: "js_sort ?cmp ?S n1 = (ss, n2)"
    by (cases "js_sort ?cmp ?S n1")
  have out: "fst (applySmartRecommendations rd rnd ints videos ui n) = us @ ss"
    using False us ss by (simp add: applySmartRecommendations_def)
  have "mset us = mset ?U"
    using mset_js_sort [of ?cmp ?U n] us by simp
  moreover have "mset ss = mset ?S"
    using mset_js_sort [of ?cmp ?S n1] ss by simp
  ultimately show ?thesis
    using out by blast
qed

lemma applySmartRecommendations_p5_split:
  "\<exists>us ss. fst (applySmartRecommendations_p5 rd rnd ints videos ui n) = us @ ss
     \<and> mset us = mset (filter (\<lambda>v. v_id v \<notin> seenIds ui) videos)
     \<and> mset ss = mset (filter (\<lambda>v. v_id v \<in> seenIds ui) videos)"
proof (cases "videos = []")
  case True
  then show ?thesis by (simp add: applySmartRecommendations_p5_def)
next
  case False
  let ?cmp = "score_cmp (scoreVideo_p5 rd rnd ints)"
  let ?U = "filter (\<lambda>v. v_id v \<notin> seenIds ui) videos"
  let ?S = "filter (\<lambda>v. v_id v \<in> seenIds ui) videos"
  obtain sh n0 where sh: "js_sort (shuffle_cmp rnd) ?U n = (sh, n0)"
    by (cases "js_sort (shuffle_cmp rnd) ?U n")
  obtain us n1 where us: "js_sort ?cmp sh n0 = (us, n1)"
    by (cases "js_sort ?cmp sh n0")
  obtain ss n2 where ss: "js_sort ?cmp ?S n1 = (ss, n2)"
    by (cases "js_sort ?cmp ?S n1")
  have out: "fst (applySmartRecommendations_p5 rd rnd ints videos ui n) = us @ ss"
    using False sh us ss by (simp add: applySmartRecommendations_p5_def)
  have "mset sh = mset ?U"
    using mset_js_sort [of "shuffle_cmp rnd" ?U n] sh by simp
  moreover have "mset us = mset sh"
    using mset_js_sort [of ?cmp sh n0] us by simp
  moreover have "mset ss = mset ?S"
    using mset_js_sort [of ?cmp ?S n1] ss by simp
  ultimately show ?thesis
    using out by auto
qed

lemma split_ranked:
  assumes "out = us @ ss"
    and "mset us = mset (filter (\<lambda>v. v_id v \<notin> seen) videos)"
    and "mset ss = mset (filter (\<lambda>v. v_id v \<in> seen) videos)"
  shows "mset out = mset videos \<and> unseen_first seen out"
proof -
  have "set us = set (filter (\<lambda>v. v_id v \<notin> seen) videos)"
    using assms(2) by (metis set_mset_mset)
  then have u: "\<forall>v\<in>set us. v_id v \<notin> seen" by simp
  have "set ss = set (filter (\<lambda>v. v_id v \<in> seen) videos)"
    using assms(3) by (metis set_mset_mset)
  then have s: "\<forall>v\<in>set ss. v_id v \<in> seen" by simp
  have "mset out = mset videos"
    using assms mset_partition_seen [of seen videos] by simp
  then show ?thesis
    using unseen_first_append [OF u s] assms(1) by simp
qed

text \<open>
  C1. For every pool, interaction state and random stream, the output of the ranker (in
  both variants) is a permutation of the pool, and no unseen video comes after a seen
  one, where seen is liked, disliked or watched for more than 10 percent.
\<close>

theorem ranker_unseen_before_seen:
  "mset (fst (applySmartRecommendations rd rnd ints videos ui n)) = mset videos
   \<and> unseen_first (seenIds ui) (fst (applySmartRecommendations rd rnd ints videos ui n))
   \<and> mset (fst (applySmartRecommendations_p5 rd rnd ints videos ui n)) = mset videos
   \<and> unseen_first (seenIds ui) (fst (applySmartRecommendations_p5 rd rnd ints videos ui n))"
  using applySmartRecommendations_split [of rd rnd ints videos ui n]
    applySmartRecommendations_p5_split [of rd rnd ints videos ui n]
    split_ranked [of _ _ _ "seenIds ui" videos]
  by metis

theorem ranker_unseen_before_seen_witness:
  "fst (applySmartRecommendations exact rnd_first_high []
      [mk_video ''A'' ''Shorts'' False, mk_video ''B'' ''Shorts'' False,
       mk_video ''C'' ''Shorts'' False, mk_video ''D'' ''Shorts'' False] disliked_B 0)
     = [mk_video ''C'' ''Shorts'' False, mk_video ''A'' ''Shorts'' False,
        mk_video ''D'' ''Shorts'' False, mk_video ''B'' ''Shorts'' False]
   \<and> unseen_first (seenIds disliked_B)
       [mk_video ''C'' ''Shorts'' False, mk_video ''A'' ''Shorts'' False,
        mk_video ''D'' ''Shorts'' False, mk_video ''B'' ''Shorts'' False]"
proof -
  have out: "fst (applySmartRecommendations exact rnd_first_high []
      [mk_video ''A'' ''Shorts'' False, mk_video ''B'' ''Shorts'' False,
       mk_video ''C'' ''Shorts'' False, mk_video ''D'' ''Shorts'' False] disliked_B 0)
     = [mk_video ''C'' ''Shorts'' False, mk_video ''A'' ''Shorts'' False,
        mk_video ''D'' ''Shorts'' False, mk_video ''B'' ''Shorts'' False]"
    by (simp add: applySmartRecommendations_def js_sort_def score_cmp_def scoreVideo_def exact_def
        seenIds_def disliked_B_def mk_video_def rnd_first_high_def)
  show ?thesis
    using ranker_unseen_before_seen [of exact rnd_first_high "[]"
        "[mk_video ''A'' ''Shorts'' False, mk_video ''B'' ''Shorts'' False,
          mk_video ''C'' ''Shorts'' False, mk_video ''D'' ''Shorts'' False]" disliked_B 0]
    unfolding out by simp
qed

section \<open>Recommendation ranker: bonus tiers\<close>

text \<open>
  A comparison function that always puts the higher tier first keeps the insertion sort's
  result ordered by tier, whatever it answers within a tier.
\<close>

lemma set_js_insert: "set (fst (js_insert cmp x ys n)) = insert x (set ys)"
  using mset_js_insert [of cmp x ys n] by (metis set_mset_mset set_mset_add_mset_insert)

lemma js_insert_tiers:
  fixes tier :: "'a \<Rightarrow> real"
  assumes up: "\<And>a b k. tier a < tier b \<Longrightarrow> 0 < fst (cmp a b k)"
    and down: "\<And>a b k. tier b < tier a \<Longrightarrow> \<not> 0 < fst (cmp a b k)"
    and srt: "sorted_wrt (\<lambda>a b. tier b \<le> tier a) ys"
  shows "sorted_wrt (\<lambda>a b. tier b \<le> tier a) (fst (js_insert cmp x ys n))"
  using srt
proof (induction ys arbitrary: n)
  case Nil
  show ?case by simp
next
  case (Cons y ys)
  obtain c n' where c: "cmp y x n = (c, n')"
    by (cases "cmp y x n")
  obtain zs n'' where zs: "js_insert cmp x ys n' = (zs, n'')"
    by (cases "js_insert cmp x ys n'")
  show ?case
  proof (cases "0 < c")
    case True
    have "\<not> tier x < tier y"
      using down [of x y n] c True by auto
    then have "tier y \<le> tier x" by simp
    then show ?thesis
      using True c Cons.prems by fastforce
  next
    case False
    have "\<not> tier y < tier x"
      using up [of y x n] c False by auto
    then have xy: "tier x \<le> tier y" by simp
    have "sorted_wrt (\<lambda>a b. tier b \<le> tier a) zs"
      using Cons.IH [of n'] Cons.prems zs by simp
    moreover have "set zs = insert x (set ys)"
      using set_js_insert [of cmp x ys n'] zs by simp
    ultimately show ?thesis
      using False c zs xy Cons.prems by auto
  qed
qed

lemma js_sort_from_tiers:
  fixes tier :: "'a \<Rightarrow> real"
  assumes up: "\<And>a b k. tier a < tier b \<Longrightarrow> 0 < fst (cmp a b k)"
    and down: "\<And>a b k. tier b < tier a \<Longrightarrow> \<not> 0 < fst (cmp a b k)"
    and srt: "sorted_wrt (\<lambda>a b. tier b \<le> tier a) acc"
  shows "sorted_wrt (\<lambda>a b. tier b \<le> tier a) (fst (js_sort_from cmp acc xs n))"
  using srt
proof (induction xs arbitrary: acc n)
  case Nil
  then show ?case by simp
next
  case (Cons x xs)
  obtain acc' n' where ins: "js_insert cmp x acc n = (acc', n')"
    by (cases "js_insert cmp x acc n")
  have "sorted_wrt (\<lambda>a b. tier b \<le> tier a) acc'"
    using js_insert_tiers [of tier cmp acc x n, OF up down Cons.prems] ins by simp
  then show ?case
    using Cons.IH [of acc' n'] ins by simp
qed

lemma js_sort_tiers:
  fixes tier :: "'a \<Rightarrow> real"
  assumes "\<And>a b k. tier a < tier b \<Longrightarrow> 0 < fst (cmp a b k)"
    and "\<And>a b k. tier b < tier a \<Longrightarrow> \<not> 0 < fst (cmp a b k)"
  shows "sorted_wrt (\<lambda>a b. tier b \<le> tier a) (fst (js_sort cmp xs n))"
  unfolding js_sort_def using js_sort_from_tiers [of tier cmp "[]" xs n] assms by simp

lemma bonus_steps: "bonus ints a < bonus ints b \<Longrightarrow> bonus ints a + 5 \<le> bonus ints b"
  by (auto simp: bonus_def interest_bonus_def split: if_splits)

lemma score_cmp_fst:
  "fst (score_cmp sc a b k) = fst (sc b k) - fst (sc a (snd (sc b k)))"
  by (simp add: score_cmp_def split: prod.splits)

lemma scoreVideo_fst: "fst (scoreVideo exact rnd ints v k) = rnd k * 10 + bonus ints v"
  by (simp add: scoreVideo_def exact_def bonus_def interest_bonus_def Let_def)

text \<open>Rounding keeps a value between two natural numbers between them.\<close>

lemma rounds_exact: "rounds exact"
  by (simp add: rounds_def exact_def)

lemma rounds_nat:
  assumes "rounds rd" and "m \<le> 2 ^ 53"
  shows "rd (real m) = real m"
  using assms by (simp add: rounds_def)

lemma rounds_between:
  assumes "rounds rd" and "real lo \<le> x" and "x \<le> real hi" and "hi \<le> 2 ^ 53"
  shows "real lo \<le> rd x" and "rd x \<le> real hi"
proof -
  have "real lo \<le> real hi"
    using assms(2,3) by (rule order_trans)
  then have "lo \<le> 2 ^ 53"
    using assms(4) by simp
  then have "rd (real lo) = real lo"
    using assms(1) by (intro rounds_nat)
  moreover have "rd (real lo) \<le> rd x"
    using assms(1,2) by (simp add: rounds_def)
  ultimately show "real lo \<le> rd x"
    by simp
  have "rd (real hi) = real hi"
    using assms(1,4) by (rule rounds_nat)
  moreover have "rd x \<le> rd (real hi)"
    using assms(1,3) by (simp add: rounds_def)
  ultimately show "rd x \<le> real hi"
    by simp
qed

lemma random_part_bounds:
  assumes "random_range rnd" and "rounds rd"
  shows "0 \<le> rd (rnd k * 10)" and "rd (rnd k * 10) \<le> 10"
    and "0 \<le> rd (rnd k * 5)" and "rd (rnd k * 5) \<le> 5"
proof -
  have r: "0 \<le> rnd k" "rnd k < 1"
    using assms(1) by (simp_all add: random_range_def)
  show "0 \<le> rd (rnd k * 10)" and "rd (rnd k * 10) \<le> 10"
    using rounds_between [of rd 0 "rnd k * 10" 10] assms(2) r by simp_all
  show "0 \<le> rd (rnd k * 5)" and "rd (rnd k * 5) \<le> 5"
    using rounds_between [of rd 0 "rnd k * 5" 5] assms(2) r by simp_all
qed

text \<open>A score lies between its bonus and its bonus plus 10, or plus 5 in part_005.\<close>

lemma scoreVideo_bounds:
  assumes "random_range rnd" and "rounds rd"
  shows "bonus ints v \<le> fst (scoreVideo rd rnd ints v k)"
    and "fst (scoreVideo rd rnd ints v k) \<le> bonus ints v + 10"
proof -
  let ?s0 = "rd (rnd k * 10)"
  have s0: "0 \<le> ?s0" "?s0 \<le> 10"
    using random_part_bounds(1,2) [OF assms] by simp_all
  have t0: "5 \<le> rd (?s0 + 5)" "rd (?s0 + 5) \<le> 15"
    using rounds_between [of rd 5 "?s0 + 5" 15] assms(2) s0 by simp_all
  let ?s1 = "rd (?s0 + 20)"
  have s1: "20 \<le> ?s1" "?s1 \<le> 30"
    using rounds_between [of rd 20 "?s0 + 20" 30] assms(2) s0 by simp_all
  have t1: "25 \<le> rd (?s1 + 5)" "rd (?s1 + 5) \<le> 35"
    using rounds_between [of rd 25 "?s1 + 5" 35] assms(2) s1 by simp_all
  show "bonus ints v \<le> fst (scoreVideo rd rnd ints v k)"
    using s0 t0 s1 t1 by (simp add: scoreVideo_def bonus_def interest_bonus_def Let_def)
  show "fst (scoreVideo rd rnd ints v k) \<le> bonus ints v + 10"
    using s0 t0 s1 t1 by (simp add: scoreVideo_def bonus_def interest_bonus_def Let_def)
qed

lemma scoreVideo_p5_bounds:
  assumes "random_range rnd" and "rounds rd"
  shows "bonus ints v \<le> fst (scoreVideo_p5 rd rnd ints v k)"
    and "fst (scoreVideo_p5 rd rnd ints v k) \<le> bonus ints v + 5"
proof -
  let ?p = "rd (rnd k * 5)"
  have p: "0 \<le> ?p" "?p \<le> 5"
    using random_part_bounds(3,4) [OF assms] by simp_all
  have f: "rd 20 = 20" "rd 5 = 5" "rd 25 = 25"
    using rounds_nat [OF assms(2), of 20] rounds_nat [OF assms(2), of 5]
      rounds_nat [OF assms(2), of 25] by simp_all
  have b0: "0 \<le> rd (0 + ?p)" "rd (0 + ?p) \<le> 5"
    using rounds_between [of rd 0 "0 + ?p" 5] assms(2) p by simp_all
  have b5: "5 \<le> rd (5 + ?p)" "rd (5 + ?p) \<le> 10"
    using rounds_between [of rd 5 "5 + ?p" 10] assms(2) p by simp_all
  have b20: "20 \<le> rd (20 + ?p)" "rd (20 + ?p) \<le> 25"
    using rounds_between [of rd 20 "20 + ?p" 25] assms(2) p by simp_all
  have b25: "25 \<le> rd (25 + ?p)" "rd (25 + ?p) \<le> 30"
    using rounds_between [of rd 25 "25 + ?p" 30] assms(2) p by simp_all
  show "bonus ints v \<le> fst (scoreVideo_p5 rd rnd ints v k)"
    using b0 b5 b20 b25
    by (simp add: scoreVideo_p5_def bonus_def interest_bonus_def Let_def f)
  show "fst (scoreVideo_p5 rd rnd ints v k) \<le> bonus ints v + 5"
    using b0 b5 b20 b25
    by (simp add: scoreVideo_p5_def bonus_def interest_bonus_def Let_def f)
qed

lemma interest_gap:
  assumes "interest_bonus ints a < interest_bonus ints b"
  shows "bonus ints a \<le> 5" and "20 \<le> bonus ints b"
  using assms by (auto simp: bonus_def interest_bonus_def split: if_splits)

lemma score_cmp_interest:
  assumes "random_range rnd" and "rounds rd"
  shows "interest_bonus ints a < interest_bonus ints b
           \<Longrightarrow> 0 < fst (score_cmp (scoreVideo rd rnd ints) a b k)"
    and "interest_bonus ints b < interest_bonus ints a
           \<Longrightarrow> \<not> 0 < fst (score_cmp (scoreVideo rd rnd ints) a b k)"
proof -
  let ?k' = "snd (scoreVideo rd rnd ints b k)"
  show "0 < fst (score_cmp (scoreVideo rd rnd ints) a b k)"
    if "interest_bonus ints a < interest_bonus ints b"
    using interest_gap [OF that] scoreVideo_bounds(1) [OF assms, of ints b k]
      scoreVideo_bounds(2) [OF assms, of ints a ?k']
    by (simp add: score_cmp_fst)
  show "\<not> 0 < fst (score_cmp (scoreVideo rd rnd ints) a b k)"
    if "interest_bonus ints b < interest_bonus ints a"
    using interest_gap [OF that] scoreVideo_bounds(2) [OF assms, of ints b k]
      scoreVideo_bounds(1) [OF assms, of ints a ?k']
    by (simp add: score_cmp_fst)
qed

lemma score_cmp_p5_interest:
  assumes "random_range rnd" and "rounds rd"
  shows "interest_bonus ints a < interest_bonus ints b
           \<Longrightarrow> 0 < fst (score_cmp (scoreVideo_p5 rd rnd ints) a b k)"
    and "interest_bonus ints b < interest_bonus ints a
           \<Longrightarrow> \<not> 0 < fst (score_cmp (scoreVideo_p5 rd rnd ints) a b k)"
proof -
  let ?k' = "snd (scoreVideo_p5 rd rnd ints b k)"
  show "0 < fst (score_cmp (scoreVideo_p5 rd rnd ints) a b k)"
    if "interest_bonus ints a < interest_bonus ints b"
    using interest_gap [OF that] scoreVideo_p5_bounds(1) [OF assms, of ints b k]
      scoreVideo_p5_bounds(2) [OF assms, of ints a ?k']
    by (simp add: score_cmp_fst)
  show "\<not> 0 < fst (score_cmp (scoreVideo_p5 rd rnd ints) a b k)"
    if "interest_bonus ints b < interest_bonus ints a"
    using interest_gap [OF that] scoreVideo_p5_bounds(2) [OF assms, of ints b k]
      scoreVideo_p5_bounds(1) [OF assms, of ints a ?k']
    by (simp add: score_cmp_fst)
qed

lemma scoreVideo_p5_order:
  assumes "random_range rnd" and "rounds rd" and "bonus ints a < bonus ints b"
  shows "fst (scoreVideo_p5 rd rnd ints a k) \<le> fst (scoreVideo_p5 rd rnd ints b k')"
  using bonus_steps [OF assms(3)] scoreVideo_p5_bounds(2) [OF assms(1,2), of ints a k]
    scoreVideo_p5_bounds(1) [OF assms(1,2), of ints b k']
  by linarith

lemma tiers_respected_append:
  assumes "\<forall>v\<in>set us. v_id v \<notin> seen" and "\<forall>v\<in>set ss. v_id v \<in> seen"
    and "sorted_wrt (\<lambda>a b. tier b \<le> tier a) us"
    and "sorted_wrt (\<lambda>a b. tier b \<le> tier a) ss"
  shows "tiers_respected seen tier (us @ ss)"
proof -
  have "sorted_wrt (\<lambda>a b. (v_id a \<in> seen \<longleftrightarrow> v_id b \<in> seen) \<longrightarrow> tier b \<le> tier a) us"
    using assms(3) by (rule sorted_wrt_mono_rel [rotated]) simp
  moreover have "sorted_wrt (\<lambda>a b. (v_id a \<in> seen \<longleftrightarrow> v_id b \<in> seen) \<longrightarrow> tier b \<le> tier a) ss"
    using assms(4) by (rule sorted_wrt_mono_rel [rotated]) simp
  ultimately show ?thesis
    using assms(1,2) by (auto simp: tiers_respected_def sorted_wrt_append)
qed

lemma applySmartRecommendations_parts:
  assumes "videos \<noteq> []"
  shows "\<exists>n1. fst (applySmartRecommendations rd rnd ints videos ui n)
      = fst (js_sort (score_cmp (scoreVideo rd rnd ints)) (filter (\<lambda>v. v_id v \<notin> seenIds ui) videos) n)
        @ fst (js_sort (score_cmp (scoreVideo rd rnd ints)) (filter (\<lambda>v. v_id v \<in> seenIds ui) videos) n1)"
proof -
  let ?cmp = "score_cmp (scoreVideo rd rnd ints)"
  obtain us n1 where us: "js_sort ?cmp (filter (\<lambda>v. v_id v \<notin> seenIds ui) videos) n = (us, n1)"
    by (cases "js_sort ?cmp (filter (\<lambda>v. v_id v \<notin> seenIds ui) videos) n")
  obtain ss n2 where ss: "js_sort ?cmp (filter (\<lambda>v. v_id v \<in> seenIds ui) videos) n1 = (ss, n2)"
    by (cases "js_sort ?cmp (filter (\<lambda>v. v_id v \<in> seenIds ui) videos) n1")
  have "fst (applySmartRecommendations rd rnd ints videos ui n)
      = fst (js_sort ?cmp (filter (\<lambda>v. v_id v \<notin> seenIds ui) videos) n)
        @ fst (js_sort ?cmp (filter (\<lambda>v. v_id v \<in> seenIds ui) videos) n1)"
    using assms us ss by (simp add: applySmartRecommendations_def)
  then show ?thesis by blast
qed

lemma applySmartRecommendations_p5_parts:
  assumes "videos \<noteq> []"
  shows "\<exists>sh n0 n1. mset sh = mset (filter (\<lambda>v. v_id v \<notin> seenIds ui) videos)
     \<and> fst (applySmartRecommendations_p5 rd rnd ints videos ui n)
      = fst (js_sort (score_cmp (scoreVideo_p5 rd rnd ints)) sh n0)
        @ fst (js_sort (score_cmp (scoreVideo_p5 rd rnd ints)) (filter (\<lambda>v. v_id v \<in> seenIds ui) videos) n1)"
proof -
  obtain sh n0 where sh: "js_sort (shuffle_cmp rnd) (filter (\<lambda>v. v_id v \<notin> seenIds ui) videos) n = (sh, n0)"
    by (cases "js_sort (shuffle_cmp rnd) (filter (\<lambda>v. v_id v \<notin> seenIds ui) videos) n")
  have "mset sh = mset (filter (\<lambda>v. v_id v \<notin> seenIds ui) videos)"
    using mset_js_sort [of "shuffle_cmp rnd" "filter (\<lambda>v. v_id v \<notin> seenIds ui) videos" n] sh
    by simp
  moreover obtain us n1 where us: "js_sort (score_cmp (scoreVideo_p5 rd rnd ints)) sh n0 = (us, n1)"
    by (cases "js_sort (score_cmp (scoreVideo_p5 rd rnd ints)) sh n0")
  moreover obtain ss n2 where ss: "js_sort (score_cmp (scoreVideo_p5 rd rnd ints))
      (filter (\<lambda>v. v_id v \<in> seenIds ui) videos) n1 = (ss, n2)"
    by (cases "js_sort (score_cmp (scoreVideo_p5 rd rnd ints))
      (filter (\<lambda>v. v_id v \<in> seenIds ui) videos) n1")
  moreover have "fst (applySmartRecommendations_p5 rd rnd ints videos ui n)
      = fst (js_sort (score_cmp (scoreVideo_p5 rd rnd ints)) sh n0)
        @ fst (js_sort (score_cmp (scoreVideo_p5 rd rnd ints)) (filter (\<lambda>v. v_id v \<in> seenIds ui) videos) n1)"
    using assms sh us ss by (simp add: applySmartRecommendations_p5_def)
  ultimately show ?thesis by blast
qed

lemma tiers_respected_sorted_parts:
  fixes tier :: "video \<Rightarrow> real"
  assumes "\<And>a b k. tier a < tier b \<Longrightarrow> 0 < fst (cmp a b k)"
    and "\<And>a b k. tier b < tier a \<Longrightarrow> \<not> 0 < fst (cmp a b k)"
    and "set us \<subseteq> {v. v_id v \<notin> seen}" and "set ss \<subseteq> {v. v_id v \<in> seen}"
  shows "tiers_respected seen tier (fst (js_sort cmp us n) @ fst (js_sort cmp ss n'))"
proof (rule tiers_respected_append)
  show "\<forall>v\<in>set (fst (js_sort cmp us n)). v_id v \<notin> seen"
    using assms(3) by (auto simp: set_js_sort)
  show "\<forall>v\<in>set (fst (js_sort cmp ss n')). v_id v \<in> seen"
    using assms(4) by (auto simp: set_js_sort)
  show "sorted_wrt (\<lambda>a b. tier b \<le> tier a) (fst (js_sort cmp us n))"
    using assms(1,2) by (rule js_sort_tiers)
  show "sorted_wrt (\<lambda>a b. tier b \<le> tier a) (fst (js_sort cmp ss n'))"
    using assms(1,2) by (rule js_sort_tiers)
qed

lemma ranker_interest_tiers:
  assumes "random_range rnd" and "rounds rd"
  shows "tiers_respected (seenIds ui) (interest_bonus ints)
           (fst (applySmartRecommendations rd rnd ints videos ui n))"
proof (cases "videos = []")
  case True
  then show ?thesis by (simp add: applySmartRecommendations_def tiers_respected_def)
next
  case False
  obtain n1 where out: "fst (applySmartRecommendations rd rnd ints videos ui n)
      = fst (js_sort (score_cmp (scoreVideo rd rnd ints)) (filter (\<lambda>v. v_id v \<notin> seenIds ui) videos) n)
        @ fst (js_sort (score_cmp (scoreVideo rd rnd ints)) (filter (\<lambda>v. v_id v \<in> seenIds ui) videos) n1)"
    using applySmartRecommendations_parts [OF False] by blast
  show ?thesis
    unfolding out
    by (rule tiers_respected_sorted_parts)
      (use score_cmp_interest [OF assms] in auto)
qed

lemma ranker_p5_interest_tiers:
  assumes "random_range rnd" and "rounds rd"
  shows "tiers_respected (seenIds ui) (interest_bonus ints)
           (fst (applySmartRecommendations_p5 rd rnd ints videos ui n))"
proof (cases "videos = []")
  case True
  then show ?thesis by (simp add: applySmartRecommendations_p5_def tiers_respected_def)
next
  case False
  obtain sh n0 n1 where sh: "mset sh = mset (filter (\<lambda>v. v_id v \<notin> seenIds ui) videos)"
    and out: "fst (applySmartRecommendations_p5 rd rnd ints videos ui n)
      = fst (js_sort (score_cmp (scoreVideo_p5 rd rnd ints)) sh n0)
        @ fst (js_sort (score_cmp (scoreVideo_p5 rd rnd ints)) (filter (\<lambda>v. v_id v \<in> seenIds ui) videos) n1)"
    using applySmartRecommendations_p5_parts [OF False] by blast
  have "set sh = set (filter (\<lambda>v. v_id v \<notin> seenIds ui) videos)"
    using sh by (metis set_mset_mset)
  then have sub: "set sh \<subseteq> {v. v_id v \<notin> seenIds ui}" by auto
  show ?thesis
    unfolding out
    by (rule tiers_respected_sorted_parts)
      (use score_cmp_p5_interest [OF assms] sub in auto)
qed

text \<open>
  C5, as amended. For random draws in \<open>[0, 1)\<close> and scores computed in doubles: a score
  of src/MainContent.tsx lies between the video's bonus and the bonus plus 10, a score of
  src/unnamed/part_005 between the bonus and the bonus plus 5. In both variants, among
  the unseen videos and among the seen videos, a video whose category is an interest
  is never behind one whose category is not. In src/unnamed/part_005 a video with the
  larger bonus never has the smaller score.
\<close>

theorem ranker_bonus_tiers:
  assumes "random_range rnd" and "rounds rd"
  shows "bonus ints v \<le> fst (scoreVideo rd rnd ints v k)
    \<and> fst (scoreVideo rd rnd ints v k) \<le> bonus ints v + 10
    \<and> tiers_respected (seenIds ui) (interest_bonus ints)
        (fst (applySmartRecommendations rd rnd ints videos ui n))
    \<and> bonus ints v \<le> fst (scoreVideo_p5 rd rnd ints v k)
    \<and> fst (scoreVideo_p5 rd rnd ints v k) \<le> bonus ints v + 5
    \<and> tiers_respected (seenIds ui) (interest_bonus ints)
        (fst (applySmartRecommendations_p5 rd rnd ints videos ui n))
    \<and> (bonus ints a < bonus ints b \<longrightarrow>
         fst (scoreVideo_p5 rd rnd ints a k) \<le> fst (scoreVideo_p5 rd rnd ints b k'))"
  using scoreVideo_bounds [OF assms] scoreVideo_p5_bounds [OF assms]
    ranker_interest_tiers [OF assms] ranker_p5_interest_tiers [OF assms]
    scoreVideo_p5_order [OF assms]
  by simp

text \<open>
  C5 as stated fails for src/MainContent.tsx: when the draw for the video A without
  any bonus is 0.75 and the draw for the trending video B is 0, A scores 7.5 and B
  scores 5, in doubles as in exact arithmetic: the random part of A is larger than the
  trending bonus, and A stays in front of B. The comparison of A and B scores B first,
  so these are the draws 0 and 0.75 in this order; with the draws 0.75 and 0 it is B that
  scores more, 12.5 against 0. (An engine that passes the pair the other way round
  scores A first, and the two streams change places: one of the two rankings leaves A
  in front of B in either case.)
\<close>

theorem ranker_bonus_tiers_counterexample:
  "bonus [] (mk_video ''A'' ''Shorts'' False) = 0
   \<and> bonus [] (mk_video ''B'' ''Shorts'' True) = 5
   \<and> fst (scoreVideo exact rnd_second_075 [] (mk_video ''A'' ''Shorts'' False) 1) = 15 / 2
   \<and> fst (scoreVideo exact rnd_second_075 [] (mk_video ''B'' ''Shorts'' True) 0) = 5
   \<and> fst (applySmartRecommendations exact rnd_second_075 []
        [mk_video ''A'' ''Shorts'' False, mk_video ''B'' ''Shorts'' True] no_interactions 0)
      = [mk_video ''A'' ''Shorts'' False, mk_video ''B'' ''Shorts'' True]
   \<and> fst (scoreVideo exact rnd_first_075 [] (mk_video ''A'' ''Shorts'' False) 0) = 15 / 2
   \<and> fst (scoreVideo exact rnd_first_075 [] (mk_video ''B'' ''Shorts'' True) 1) = 5
   \<and> fst (applySmartRecommendations exact rnd_first_075 []
        [mk_video ''A'' ''Shorts'' False, mk_video ''B'' ''Shorts'' True] no_interactions 0)
      = [mk_video ''B'' ''Shorts'' True, mk_video ''A'' ''Shorts'' False]"
  by (simp add: applySmartRecommendations_def js_sort_def score_cmp_def scoreVideo_def exact_def
      seenIds_def no_interactions_def mk_video_def rnd_second_075_def rnd_first_075_def
      bonus_def interest_bonus_def)

lemma random_range_first_075: "random_range rnd_first_075"
  by (simp add: random_range_def rnd_first_075_def)

theorem ranker_bonus_tiers_witness:
  "random_range rnd_first_075
   \<and> rounds exact
   \<and> tiers_respected (seenIds no_interactions) (interest_bonus [''horror''])
        (fst (applySmartRecommendations_p5 exact rnd_first_075 [''horror'']
           [mk_video ''A'' ''Shorts'' False, mk_video ''B'' ''Shorts'' True] no_interactions 0))
   \<and> fst (applySmartRecommendations_p5 exact rnd_first_075 [''horror'']
           [mk_video ''A'' ''Shorts'' False, mk_video ''B'' ''Shorts'' True] no_interactions 0)
      = [mk_video ''B'' ''Shorts'' True, mk_video ''A'' ''Shorts'' False]
   \<and> fst (scoreVideo_p5 exact rnd_first_075 [''horror''] (mk_video ''A'' ''Shorts'' False) 0)
      \<le> fst (scoreVideo_p5 exact rnd_first_075 [''horror''] (mk_video ''B'' ''Shorts'' True) 1)"
proof -
  have out: "fst (applySmartRecommendations_p5 exact rnd_first_075 [''horror'']
           [mk_video ''A'' ''Shorts'' False, mk_video ''B'' ''Shorts'' True] no_interactions 0)
      = [mk_video ''B'' ''Shorts'' True, mk_video ''A'' ''Shorts'' False]"
    by (simp add: applySmartRecommendations_p5_def js_sort_def score_cmp_def scoreVideo_p5_def
        exact_def shuffle_cmp_def seenIds_def no_interactions_def mk_video_def rnd_first_075_def)
  have lt: "bonus [''horror''] (mk_video ''A'' ''Shorts'' False)
      < bonus [''horror''] (mk_video ''B'' ''Shorts'' True)"
    by (simp add: bonus_def interest_bonus_def mk_video_def)
  note t = ranker_bonus_tiers [OF random_range_first_075 rounds_exact, of "[''horror'']" _ 0
      no_interactions "[mk_video ''A'' ''Shorts'' False, mk_video ''B'' ''Shorts'' True]" 0
      "mk_video ''A'' ''Shorts'' False" "mk_video ''B'' ''Shorts'' True" 1]
  have "tiers_respected (seenIds no_interactions) (interest_bonus [''horror''])
        (fst (applySmartRecommendations_p5 exact rnd_first_075 [''horror'']
           [mk_video ''A'' ''Shorts'' False, mk_video ''B'' ''Shorts'' True] no_interactions 0))"
    using t by blast
  moreover have "fst (scoreVideo_p5 exact rnd_first_075 [''horror''] (mk_video ''A'' ''Shorts'' False) 0)
      \<le> fst (scoreVideo_p5 exact rnd_first_075 [''horror''] (mk_video ''B'' ''Shorts'' True) 1)"
    using t lt by blast
  ultimately show ?thesis
    using random_range_first_075 rounds_exact out by blast
qed

section \<open>Recommendation ranker: what is deterministic\<close>

text \<open>
  When the comparison function decides by a tier alone, the insertion sort is the stable
  sort by descending tier.
\<close>

lemma js_insert_stable:
  fixes tier :: "'a \<Rightarrow> real"
  assumes ex: "\<And>a b k. 0 < fst (cmp a b k) \<longleftrightarrow> tier a < tier b"
    and srt: "sorted_wrt (\<lambda>a b. tier b \<le> tier a) ys"
  shows "filter (\<lambda>v. tier v = t) (fst (js_insert cmp x ys n))
           = filter (\<lambda>v. tier v = t) (ys @ [x])"
  using srt
proof (induction ys arbitrary: n)
  case Nil
  show ?case by simp
next
  case (Cons y ys)
  obtain c n' where c: "cmp y x n = (c, n')"
    by (cases "cmp y x n")
  obtain zs n'' where zs: "js_insert cmp x ys n' = (zs, n'')"
    by (cases "js_insert cmp x ys n'")
  show ?case
  proof (cases "0 < c")
    case True
    then have lt: "tier y < tier x"
      using ex [of y x n] c by simp
    have "\<forall>z\<in>set (y # ys). tier z < tier x"
      using lt Cons.prems by auto
    then have "tier x = t \<Longrightarrow> filter (\<lambda>v. tier v = t) (y # ys) = []"
      by (auto simp: filter_empty_conv)
    then show ?thesis
      using True c by auto
  next
    case False
    have "filter (\<lambda>v. tier v = t) zs = filter (\<lambda>v. tier v = t) (ys @ [x])"
      using Cons.IH [of n'] Cons.prems zs by simp
    then show ?thesis
      using False c zs by simp
  qed
qed

lemma js_sort_from_stable:
  fixes tier :: "'a \<Rightarrow> real"
  assumes ex: "\<And>a b k. 0 < fst (cmp a b k) \<longleftrightarrow> tier a < tier b"
    and srt: "sorted_wrt (\<lambda>a b. tier b \<le> tier a) acc"
  shows "filter (\<lambda>v. tier v = t) (fst (js_sort_from cmp acc xs n))
           = filter (\<lambda>v. tier v = t) (acc @ xs)"
  using srt
proof (induction xs arbitrary: acc n)
  case Nil
  show ?case by simp
next
  case (Cons x xs)
  obtain acc' n' where ins: "js_insert cmp x acc n = (acc', n')"
    by (cases "js_insert cmp x acc n")
  have s': "sorted_wrt (\<lambda>a b. tier b \<le> tier a) acc'"
    using js_insert_tiers [of tier cmp acc x n] ex Cons.prems ins by simp
  have "filter (\<lambda>v. tier v = t) acc' = filter (\<lambda>v. tier v = t) (acc @ [x])"
    using js_insert_stable [of cmp tier acc t x n] ex Cons.prems ins by simp
  then show ?case
    using Cons.IH [OF s', of n'] ins by simp
qed

lemma js_sort_is_sort_key:
  fixes tier :: "'a \<Rightarrow> real"
  assumes ex: "\<And>a b k. 0 < fst (cmp a b k) \<longleftrightarrow> tier a < tier b"
  shows "fst (js_sort cmp xs n) = sort_key (\<lambda>v. - tier v) xs"
proof (rule properties_for_sort_key [symmetric])
  show "mset (fst (js_sort cmp xs n)) = mset xs"
    by (rule mset_js_sort)
  show "filter (\<lambda>x. - tier k = - tier x) (fst (js_sort cmp xs n))
          = filter (\<lambda>x. - tier k = - tier x) xs" for k
    using js_sort_from_stable [of cmp tier "[]" "tier k" xs n] ex
    by (simp add: js_sort_def eq_commute)
  have "sorted_wrt (\<lambda>a b. tier b \<le> tier a) (fst (js_sort cmp xs n))"
    using js_sort_tiers [of tier cmp xs n] ex by simp
  then show "sorted (map (\<lambda>v. - tier v) (fst (js_sort cmp xs n)))"
    by (simp add: sorted_map)
qed

lemma score_cmp_constant:
  "0 < fst (score_cmp (scoreVideo exact (\<lambda>k. r) ints) a b k) \<longleftrightarrow> bonus ints a < bonus ints b"
  by (simp add: score_cmp_fst scoreVideo_fst)

lemma sort_key_equal_keys:
  assumes "\<forall>x\<in>set xs. f x = (c::real)"
  shows "sort_key f xs = xs"
proof -
  have "sorted (map f xs)"
    using assms by (induction xs) auto
  then show ?thesis
    by (rule sort_key_id_if_sorted)
qed

lemma ranker_constant_draws_sorted:
  "fst (applySmartRecommendations exact (\<lambda>k. r) ints videos ui n)
     = sort_key (\<lambda>v. - bonus ints v) (filter (\<lambda>v. v_id v \<notin> seenIds ui) videos)
       @ sort_key (\<lambda>v. - bonus ints v) (filter (\<lambda>v. v_id v \<in> seenIds ui) videos)"
proof (cases "videos = []")
  case True
  then show ?thesis by (simp add: applySmartRecommendations_def)
next
  case False
  show ?thesis
    using applySmartRecommendations_parts [OF False, of exact "\<lambda>k. r" ints ui n]
      js_sort_is_sort_key [of "score_cmp (scoreVideo exact (\<lambda>k. r) ints)" "bonus ints", OF score_cmp_constant]
    by auto
qed

text \<open>
  The same with the scores in doubles: scores computed from one and the same draw are
  ordered as their bonuses are.
\<close>

lemma rounds_step:
  assumes "rounds rd" and "0 \<le> x" and "x + real j \<le> 2 ^ 53" and "1 \<le> j"
  shows "x < rd (x + real j)"
proof -
  let ?m = "nat \<lfloor>x\<rfloor>"
  have m: "real ?m \<le> x" "x < real ?m + 1"
    using assms(2) by (simp_all add: of_nat_nat)
  have "real (?m + j) \<le> x + real j"
    using m(1) by simp
  moreover have "real (?m + j) \<le> 2 ^ 53"
    using calculation assms(3) by linarith
  then have "?m + j \<le> 2 ^ 53"
    by (metis of_nat_le_iff of_nat_numeral of_nat_power)
  then have "rd (real (?m + j)) = real (?m + j)"
    using assms(1) by (intro rounds_nat)
  moreover have "rd (real (?m + j)) \<le> rd (x + real j)"
    using assms(1) \<open>real (?m + j) \<le> x + real j\<close> by (simp add: rounds_def)
  moreover have "x < real (?m + j)"
    using m(2) assms(4) by simp
  ultimately show ?thesis
    by linarith
qed

lemma score_cmp_constant_doubles:
  assumes "rounds rd" and "0 \<le> r" and "r < 1"
  shows "0 < fst (score_cmp (scoreVideo rd (\<lambda>k. r) ints) a b k) \<longleftrightarrow> bonus ints a < bonus ints b"
proof -
  let ?s0 = "rd (r * 10)"
  have s0: "0 \<le> ?s0" "?s0 \<le> 10"
    using rounds_between [of rd 0 "r * 10" 10] assms by simp_all
  have t0: "?s0 < rd (?s0 + 5)" "rd (?s0 + 5) \<le> 15"
    using rounds_step [of rd ?s0 5] rounds_between [of rd 5 "?s0 + 5" 15] assms(1) s0
    by simp_all
  let ?s1 = "rd (?s0 + 20)"
  have s1: "20 \<le> ?s1" "?s1 \<le> 30"
    using rounds_between [of rd 20 "?s0 + 20" 30] assms(1) s0 by simp_all
  have t1: "?s1 < rd (?s1 + 5)"
    using rounds_step [of rd ?s1 5] assms(1) s1 by simp
  show ?thesis
    using s0 t0 s1 t1
    by (auto simp: score_cmp_fst scoreVideo_def bonus_def interest_bonus_def Let_def)
qed

lemma ranker_constant_draws_doubles:
  assumes "rounds rd" and "0 \<le> r" and "r < 1"
  shows "fst (applySmartRecommendations rd (\<lambda>k. r) ints videos ui n)
     = sort_key (\<lambda>v. - bonus ints v) (filter (\<lambda>v. v_id v \<notin> seenIds ui) videos)
       @ sort_key (\<lambda>v. - bonus ints v) (filter (\<lambda>v. v_id v \<in> seenIds ui) videos)"
proof (cases "videos = []")
  case True
  then show ?thesis by (simp add: applySmartRecommendations_def)
next
  case False
  show ?thesis
    using applySmartRecommendations_parts [OF False, of rd "\<lambda>k. r" ints ui n]
      js_sort_is_sort_key [of "score_cmp (scoreVideo rd (\<lambda>k. r) ints)" "bonus ints",
        OF score_cmp_constant_doubles [OF assms]]
    by auto
qed

text \<open>
  C4, as amended. The ranker has no shuffle option and draws random numbers in every
  ranking. When all the draws are equal (the random source replaced by a constant), the
  output of the ranker of src/MainContent.tsx is the unseen pool entries stably sorted by
  descending bonus, followed by the seen pool entries stably sorted by descending bonus;
  when moreover all videos have the same bonus, the unseen entries and the seen entries
  keep their pool order.
\<close>

theorem ranker_constant_draws:
  "fst (applySmartRecommendations exact (\<lambda>k. r) ints videos ui n)
     = sort_key (\<lambda>v. - bonus ints v) (filter (\<lambda>v. v_id v \<notin> seenIds ui) videos)
       @ sort_key (\<lambda>v. - bonus ints v) (filter (\<lambda>v. v_id v \<in> seenIds ui) videos)
   \<and> ((\<forall>v\<in>set videos. bonus ints v = b) \<longrightarrow>
        fst (applySmartRecommendations exact (\<lambda>k. r) ints videos ui n)
          = filter (\<lambda>v. v_id v \<notin> seenIds ui) videos
            @ filter (\<lambda>v. v_id v \<in> seenIds ui) videos)"
proof -
  have "sort_key (\<lambda>v. - bonus ints v) (filter P videos) = filter P videos"
    if "\<forall>v\<in>set videos. bonus ints v = b" for P
    using that by (intro sort_key_equal_keys [of _ _ "- b"]) simp
  then show ?thesis
    using ranker_constant_draws_sorted [of r ints videos ui n] by simp
qed

theorem ranker_constant_draws_witness:
  "list_all (\<lambda>v. bonus [] v = 0) [mk_video ''A'' ''Shorts'' False, mk_video ''B'' ''Shorts'' False,
       mk_video ''C'' ''Shorts'' False, mk_video ''D'' ''Shorts'' False]
   \<and> fst (applySmartRecommendations exact (\<lambda>k. 0) []
      [mk_video ''A'' ''Shorts'' False, mk_video ''B'' ''Shorts'' False,
       mk_video ''C'' ''Shorts'' False, mk_video ''D'' ''Shorts'' False] disliked_B 0)
     = [mk_video ''A'' ''Shorts'' False, mk_video ''C'' ''Shorts'' False,
        mk_video ''D'' ''Shorts'' False, mk_video ''B'' ''Shorts'' False]"
proof -
  have b: "\<forall>v\<in>set [mk_video ''A'' ''Shorts'' False, mk_video ''B'' ''Shorts'' False,
       mk_video ''C'' ''Shorts'' False, mk_video ''D'' ''Shorts'' False]. bonus [] v = 0"
    by (simp add: bonus_def interest_bonus_def mk_video_def)
  have "fst (applySmartRecommendations exact (\<lambda>k. 0) []
      [mk_video ''A'' ''Shorts'' False, mk_video ''B'' ''Shorts'' False,
       mk_video ''C'' ''Shorts'' False, mk_video ''D'' ''Shorts'' False] disliked_B 0)
     = [mk_video ''A'' ''Shorts'' False, mk_video ''C'' ''Shorts'' False,
        mk_video ''D'' ''Shorts'' False, mk_video ''B'' ''Shorts'' False]"
    using ranker_constant_draws [of 0 "[]"
        "[mk_video ''A'' ''Shorts'' False, mk_video ''B'' ''Shorts'' False,
          mk_video ''C'' ''Shorts'' False, mk_video ''D'' ''Shorts'' False]" disliked_B 0 0] b
    by (simp add: seenIds_def disliked_B_def mk_video_def)
  then show ?thesis
    using b by (simp add: list_all_iff)
qed

text \<open>
  C4 as stated fails: three rankings of the same pool [A, B] with the same (empty)
  interaction state give [A, B] when all draws are 0, [B, A] when only the first draw
  is 0.9 (it goes to B), and [A, B] when only the second draw is 0.9 (it goes to A). So
  the order depends on the draws, and the pool order is not always kept. (With an
  engine that passes the pair the other way round, the second and the third ranking
  change places.)
\<close>

theorem ranker_not_deterministic_counterexample:
  "fst (applySmartRecommendations exact rnd_zero []
        [mk_video ''A'' ''Shorts'' False, mk_video ''B'' ''Shorts'' False] no_interactions 0)
      = [mk_video ''A'' ''Shorts'' False, mk_video ''B'' ''Shorts'' False]
   \<and> fst (applySmartRecommendations exact rnd_first_high []
        [mk_video ''A'' ''Shorts'' False, mk_video ''B'' ''Shorts'' False] no_interactions 0)
      = [mk_video ''B'' ''Shorts'' False, mk_video ''A'' ''Shorts'' False]
   \<and> fst (applySmartRecommendations exact rnd_second_high []
        [mk_video ''A'' ''Shorts'' False, mk_video ''B'' ''Shorts'' False] no_interactions 0)
      = [mk_video ''A'' ''Shorts'' False, mk_video ''B'' ''Shorts'' False]"
  by (simp add: applySmartRecommendations_def js_sort_def score_cmp_def scoreVideo_def exact_def
      seenIds_def no_interactions_def mk_video_def rnd_first_high_def rnd_second_high_def
      rnd_zero_def)

section \<open>Allocator: one call of pickVideos\<close>

lemma pickVideos_enough:
  assumes "pool \<noteq> []" and "cnt \<le> length (filter (\<lambda>v. v_id v \<notin> used) pool)"
  shows "pickVideos rnd pool cnt used n =
     (take cnt (filter (\<lambda>v. v_id v \<notin> used) pool),
      used \<union> batch_ids (take cnt (filter (\<lambda>v. v_id v \<notin> used) pool)), n)"
  using assms by (simp add: pickVideos_def Let_def batch_ids_def)

lemma pickVideos_recycle:
  assumes "pool \<noteq> []" and "length (filter (\<lambda>v. v_id v \<notin> used) pool) < cnt"
  shows "\<exists>recycled n'.
     mset recycled = mset (filter (\<lambda>v. v_id v \<in> used) pool)
     \<and> pickVideos rnd pool cnt used n =
       (filter (\<lambda>v. v_id v \<notin> used) pool
          @ take (cnt - length (filter (\<lambda>v. v_id v \<notin> used) pool)) recycled,
        used \<union> batch_ids (filter (\<lambda>v. v_id v \<notin> used) pool), n')"
proof -
  let ?av = "filter (\<lambda>v. v_id v \<notin> used) pool"
  have tk: "take cnt ?av = ?av"
    using assms(2) by simp
  have flt: "filter (\<lambda>v. v \<notin> set ?av) pool = filter (\<lambda>v. v_id v \<in> used) pool"
    by (rule filter_cong) auto
  obtain recycled n' where r: "js_sort (recycle_cmp rnd) (filter (\<lambda>v. v_id v \<in> used) pool) n = (recycled, n')"
    by (cases "js_sort (recycle_cmp rnd) (filter (\<lambda>v. v_id v \<in> used) pool) n")
  have "mset recycled = mset (filter (\<lambda>v. v_id v \<in> used) pool)"
    using mset_js_sort [of "recycle_cmp rnd" "filter (\<lambda>v. v_id v \<in> used) pool" n] r by simp
  moreover have "pickVideos rnd pool cnt used n =
       (?av @ take (cnt - length ?av) recycled, used \<union> batch_ids ?av, n')"
    unfolding pickVideos_def Let_def tk flt batch_ids_def
    using assms r by simp
  ultimately show ?thesis by blast
qed

lemma length_filter_split:
  "length (filter (\<lambda>v. v_id v \<notin> used) pool) + length (filter (\<lambda>v. v_id v \<in> used) pool)
     = length pool"
  using sum_length_filter_compl [of "\<lambda>v. v_id v \<notin> used" pool] by simp

lemma pickVideos_length:
  "length (fst (pickVideos rnd pool cnt used n)) = min cnt (length pool)"
proof (cases "pool = []")
  case True
  then show ?thesis by (simp add: pickVideos_def)
next
  case False
  let ?av = "filter (\<lambda>v. v_id v \<notin> used) pool"
  show ?thesis
  proof (cases "cnt \<le> length ?av")
    case True
    have "length ?av \<le> length pool" by simp
    then have "cnt \<le> length pool"
      using True by (rule order_trans [rotated])
    then show ?thesis
      using pickVideos_enough [OF False True, of rnd n] True by simp
  next
    case no: False
    then have lt: "length ?av < cnt" by simp
    obtain recycled n' where m: "mset recycled = mset (filter (\<lambda>v. v_id v \<in> used) pool)"
      and p: "pickVideos rnd pool cnt used n =
       (?av @ take (cnt - length ?av) recycled, used \<union> batch_ids ?av, n')"
      using pickVideos_recycle [OF False lt, of rnd n] by blast
    have "length recycled = length (filter (\<lambda>v. v_id v \<in> used) pool)"
      using m by (metis size_mset)
    then have "length ?av + length recycled = length pool"
      using length_filter_split [of used pool] by simp
    then show ?thesis
      using p lt by auto
  qed
qed

lemma pickVideos_used:
  "fst (snd (pickVideos rnd pool cnt used n)) = snd (getUniqueBatch pool cnt used)"
proof (cases "pool = []")
  case True
  then show ?thesis by (simp add: pickVideos_def getUniqueBatch_def)
next
  case False
  then show ?thesis
    by (simp add: pickVideos_def getUniqueBatch_def Let_def split: prod.splits)
qed

lemma pickVideos_first_pass:
  "take (length (fst (getUniqueBatch pool cnt used))) (fst (pickVideos rnd pool cnt used n))
     = fst (getUniqueBatch pool cnt used)"
proof (cases "pool = []")
  case True
  then show ?thesis by (simp add: pickVideos_def getUniqueBatch_def)
next
  case False
  then show ?thesis
    by (simp add: pickVideos_def getUniqueBatch_def Let_def split: prod.splits)
qed

lemma pickVideos_from_pool:
  "set (fst (pickVideos rnd pool cnt used n)) \<subseteq> set pool"
proof (cases "pool = []")
  case True
  then show ?thesis by (simp add: pickVideos_def)
next
  case False
  let ?av = "filter (\<lambda>v. v_id v \<notin> used) pool"
  show ?thesis
  proof (cases "cnt \<le> length ?av")
    case True
    show ?thesis
      using pickVideos_enough [OF False True, of rnd n] set_take_subset [of cnt ?av] by auto
  next
    case no: False
    then have lt: "length ?av < cnt" by simp
    obtain recycled n' where m: "mset recycled = mset (filter (\<lambda>v. v_id v \<in> used) pool)"
      and p: "pickVideos rnd pool cnt used n =
       (?av @ take (cnt - length ?av) recycled, used \<union> batch_ids ?av, n')"
      using pickVideos_recycle [OF False lt, of rnd n] by blast
    have "set recycled = set (filter (\<lambda>v. v_id v \<in> used) pool)"
      using m by (metis set_mset_mset)
    then have "set (take (cnt - length ?av) recycled) \<subseteq> set pool"
      using set_take_subset [of "cnt - length ?av" recycled] by auto
    then show ?thesis
      using p by auto
  qed
qed

section \<open>Allocator: full and duplicate-free batches\<close>

lemma alloc_section_Some:
  assumes "section_demand videos (s_type s) = Some (pool, cnt)"
  shows "distribution (alloc_section rnd videos s index st) (section_key s index)
           = Some (fst (pickVideos rnd pool cnt (usedIds st) (draws st)))"
    and "usedIds (alloc_section rnd videos s index st)
           = fst (snd (pickVideos rnd pool cnt (usedIds st) (draws st)))"
  using assms by (simp_all add: alloc_section_def split: prod.splits)

lemma pickVideos_backfill_used:
  "batch_ids (drop (length (take cnt (filter (\<lambda>v. v_id v \<notin> used) pool)))
          (fst (pickVideos rnd pool cnt used n))) \<subseteq> used"
proof (cases "pool = []")
  case True
  then show ?thesis by (simp add: pickVideos_def batch_ids_def)
next
  case False
  let ?av = "filter (\<lambda>v. v_id v \<notin> used) pool"
  show ?thesis
  proof (cases "cnt \<le> length ?av")
    case True
    then show ?thesis
      using pickVideos_enough [OF False True, of rnd n] by (simp add: batch_ids_def)
  next
    case no: False
    then have lt: "length ?av < cnt" by simp
    obtain recycled n' where m: "mset recycled = mset (filter (\<lambda>v. v_id v \<in> used) pool)"
      and p: "pickVideos rnd pool cnt used n =
       (?av @ take (cnt - length ?av) recycled, used \<union> batch_ids ?av, n')"
      using pickVideos_recycle [OF False lt, of rnd n] by blast
    have "set recycled = set (filter (\<lambda>v. v_id v \<in> used) pool)"
      using m by (metis set_mset_mset)
    then have "v_id ` set (take (cnt - length ?av) recycled) \<subseteq> used"
      using set_take_subset [of "cnt - length ?av" recycled] by auto
    then show ?thesis
      using p lt by (simp add: batch_ids_def)
  qed
qed

lemma getUniqueBatch_length:
  "length (fst (getUniqueBatch source k used))
     = min k (length (filter (\<lambda>v. v_id v \<notin> used) source))"
  by (simp add: getUniqueBatch_def Let_def min.commute)

text \<open>
  C3, as amended. In a pass of \<open>distributedContent\<close>, a section whose pool holds at
  least \<open>count\<close> videos gets a batch of exactly \<open>count\<close> entries, whatever the state of
  the pass: the batch starts with the first \<open>count\<close> unused videos of the pool, the
  rest is taken from the used videos of the pool, and only the unused videos picked
  first are added to \<open>usedIds\<close>. A batch of \<open>getUniqueBatch\<close>, the helper of the home layout, has
  \<open>count\<close> entries or as many as there are unused videos in its source, whichever
  is less.
\<close>

theorem alloc_section_fills:
  assumes "section_demand videos (s_type s) = Some (pool, cnt)" and "cnt \<le> length pool"
  shows "(\<exists>batch. distribution (alloc_section rnd videos s index st) (section_key s index) = Some batch
     \<and> length batch = cnt
     \<and> take (length (take cnt (filter (\<lambda>v. v_id v \<notin> usedIds st) pool))) batch
         = take cnt (filter (\<lambda>v. v_id v \<notin> usedIds st) pool)
     \<and> set batch \<subseteq> set pool
     \<and> batch_ids (drop (length (take cnt (filter (\<lambda>v. v_id v \<notin> usedIds st) pool))) batch)
         \<subseteq> usedIds st
     \<and> usedIds (alloc_section rnd videos s index st)
         = usedIds st \<union> batch_ids (take cnt (filter (\<lambda>v. v_id v \<notin> usedIds st) pool)))
     \<and> length (fst (getUniqueBatch source k used))
         = min k (length (filter (\<lambda>v. v_id v \<notin> used) source))"
proof -
  let ?batch = "fst (pickVideos rnd pool cnt (usedIds st) (draws st))"
  have "length ?batch = cnt"
    using pickVideos_length [of rnd pool cnt "usedIds st" "draws st"] assms(2) by simp
  moreover have "take (length (take cnt (filter (\<lambda>v. v_id v \<notin> usedIds st) pool))) ?batch
         = take cnt (filter (\<lambda>v. v_id v \<notin> usedIds st) pool)"
    using pickVideos_first_pass [of pool cnt "usedIds st" rnd "draws st"]
    by (simp add: getUniqueBatch_def Let_def)
  moreover have "set ?batch \<subseteq> set pool"
    by (rule pickVideos_from_pool)
  moreover have "batch_ids (drop (length (take cnt (filter (\<lambda>v. v_id v \<notin> usedIds st) pool))) ?batch)
         \<subseteq> usedIds st"
    by (rule pickVideos_backfill_used)
  moreover have "usedIds (alloc_section rnd videos s index st)
         = usedIds st \<union> batch_ids (take cnt (filter (\<lambda>v. v_id v \<notin> usedIds st) pool))"
    using alloc_section_Some(2) [OF assms(1), of rnd index st]
      pickVideos_used [of rnd pool cnt "usedIds st" "draws st"]
    by (simp add: getUniqueBatch_def Let_def batch_ids_def)
  ultimately show ?thesis
    using alloc_section_Some(1) [OF assms(1), of rnd index st]
      getUniqueBatch_length [of source k used]
    by simp
qed

text \<open>
  C3 as stated fails for \<open>getUniqueBatch\<close> (src/unnamed/part_003): of six shorts, four
  of them used, a batch of four holds only the two unused ones.
\<close>

theorem alloc_section_fills_counterexample:
  "length six_shorts = 6
   \<and> fst (getUniqueBatch six_shorts 4 {''a'', ''b'', ''c'', ''d''})
      = map (\<lambda>i. mk_video i ''Shorts'' False) [''e'', ''f'']
   \<and> length (fst (getUniqueBatch six_shorts 4 {''a'', ''b'', ''c'', ''d''})) = 2"
  by (simp add: getUniqueBatch_def Let_def six_shorts_def mk_video_def)

theorem alloc_section_fills_witness:
  "section_demand six_shorts (s_type grid_two) = Some (six_shorts, 4)
   \<and> 4 \<le> length six_shorts
   \<and> distribution (alloc_section rnd_zero six_shorts grid_two 1 after_first_grid) ''two''
      = Some (map (\<lambda>i. mk_video i ''Shorts'' False) [''e'', ''f'', ''d'', ''c''])
   \<and> usedIds (alloc_section rnd_zero six_shorts grid_two 1 after_first_grid)
      = {''a'', ''b'', ''c'', ''d'', ''e'', ''f''}"
proof -
  have d: "section_demand six_shorts (s_type grid_two) = Some (six_shorts, 4)"
    by (simp add: section_demand_def grid_two_def shortsOnly_def six_shorts_def mk_video_def)
  have l: "4 \<le> length six_shorts"
    by (simp add: six_shorts_def)
  have k: "section_key grid_two 1 = ''two''"
    by (simp add: section_key_def grid_two_def)
  have b: "fst (pickVideos rnd_zero six_shorts 4 {''a'', ''b'', ''c'', ''d''} 0)
      = map (\<lambda>i. mk_video i ''Shorts'' False) [''e'', ''f'', ''d'', ''c'']"
    by (simp add: pickVideos_def Let_def js_sort_def recycle_cmp_def rnd_zero_def
        six_shorts_def mk_video_def)
  have u: "usedIds after_first_grid \<union>
      batch_ids (take 4 (filter (\<lambda>v. v_id v \<notin> usedIds after_first_grid) six_shorts))
      = {''a'', ''b'', ''c'', ''d'', ''e'', ''f''}"
    by (auto simp: after_first_grid_def six_shorts_def mk_video_def batch_ids_def)
  have st: "usedIds after_first_grid = {''a'', ''b'', ''c'', ''d''}" "draws after_first_grid = 0"
    by (simp_all add: after_first_grid_def)
  obtain batch where
    1: "distribution (alloc_section rnd_zero six_shorts grid_two 1 after_first_grid)
          (section_key grid_two 1) = Some batch"
    and 2: "usedIds (alloc_section rnd_zero six_shorts grid_two 1 after_first_grid)
         = usedIds after_first_grid \<union>
           batch_ids (take 4 (filter (\<lambda>v. v_id v \<notin> usedIds after_first_grid) six_shorts))"
    using alloc_section_fills [OF d l, of rnd_zero 1 after_first_grid] by blast
  have "batch = map (\<lambda>i. mk_video i ''Shorts'' False) [''e'', ''f'', ''d'', ''c'']"
    using 1 alloc_section_Some(1) [OF d, of rnd_zero 1 after_first_grid] b
    unfolding st by simp
  then show ?thesis
    using 1 2 d l unfolding k u by simp
qed

lemma distinct_perm_map:
  assumes "mset ys = mset xs" and "distinct (map f xs)"
  shows "distinct (map f ys)"
proof -
  have "mset (map f ys) = mset (map f xs)"
    using assms(1) by simp
  then have "distinct (map f ys) = distinct (map f xs)"
    by (rule mset_eq_imp_distinct_iff)
  then show ?thesis
    using assms(2) by simp
qed

lemma pickVideos_distinct_map:
  assumes "distinct (map f pool)"
  shows "distinct (map f (fst (pickVideos rnd pool cnt used n)))"
proof (cases "pool = []")
  case True
  then show ?thesis by (simp add: pickVideos_def)
next
  case False
  let ?av = "filter (\<lambda>v. v_id v \<notin> used) pool"
  let ?us = "filter (\<lambda>v. v_id v \<in> used) pool"
  have dav: "distinct (map f ?av)"
    using assms by (rule distinct_map_filter)
  show ?thesis
  proof (cases "cnt \<le> length ?av")
    case True
    have "distinct (take cnt (map f ?av))"
      using dav by (rule distinct_take)
    then show ?thesis
      using pickVideos_enough [OF False True, of rnd n] by (simp add: take_map)
  next
    case no: False
    then have lt: "length ?av < cnt" by simp
    obtain recycled n' where m: "mset recycled = mset ?us"
      and p: "pickVideos rnd pool cnt used n =
       (?av @ take (cnt - length ?av) recycled, used \<union> batch_ids ?av, n')"
      using pickVideos_recycle [OF False lt, of rnd n] by blast
    have dr: "distinct (map f recycled)"
      using m distinct_map_filter [OF assms] by (rule distinct_perm_map)
    have "distinct (take (cnt - length ?av) (map f recycled))"
      using dr by (rule distinct_take)
    then have dt: "distinct (map f (take (cnt - length ?av) recycled))"
      by (simp add: take_map)
    have sr: "set recycled = set ?us"
      using m by (metis set_mset_mset)
    have inj: "inj_on f (set pool)"
      using assms by (simp add: distinct_map)
    have ne: "f a \<noteq> f b" if "a \<in> set ?av" and "b \<in> set ?us" for a b
    proof
      assume "f a = f b"
      moreover have "a \<in> set pool" and "b \<in> set pool"
        using that by simp_all
      ultimately have "a = b"
        using inj by (rule inj_onD [rotated])
      then show False
        using that by simp
    qed
    have sub: "set (take (cnt - length ?av) recycled) \<subseteq> set ?us"
      using set_take_subset [of "cnt - length ?av" recycled] sr by simp
    have "f ` set ?av \<inter> f ` set (take (cnt - length ?av) recycled) = {}"
    proof (rule ccontr)
      assume "f ` set ?av \<inter> f ` set (take (cnt - length ?av) recycled) \<noteq> {}"
      then obtain y where "y \<in> f ` set ?av" and "y \<in> f ` set (take (cnt - length ?av) recycled)"
        by blast
      then obtain a b where "a \<in> set ?av" and "b \<in> set (take (cnt - length ?av) recycled)"
        and "f a = f b"
        by force
      then show False
        using ne [of a b] sub by blast
    qed
    then have "distinct (map f ?av @ map f (take (cnt - length ?av) recycled))"
      using dav dt by (simp only: distinct_append set_map simp_thms)
    then show ?thesis
      unfolding p by (simp only: fst_conv map_append)
  qed
qed

lemma pickVideos_backfill_fresh:
  "set (drop (length (take cnt (filter (\<lambda>v. v_id v \<notin> used) pool)))
          (fst (pickVideos rnd pool cnt used n)))
     \<inter> set (take cnt (filter (\<lambda>v. v_id v \<notin> used) pool)) = {}"
proof (cases "pool = []")
  case True
  then show ?thesis by (simp add: pickVideos_def)
next
  case False
  let ?av = "filter (\<lambda>v. v_id v \<notin> used) pool"
  show ?thesis
  proof (cases "cnt \<le> length ?av")
    case True
    then show ?thesis
      using pickVideos_enough [OF False True, of rnd n] by simp
  next
    case no: False
    then have lt: "length ?av < cnt" by simp
    obtain recycled n' where m: "mset recycled = mset (filter (\<lambda>v. v_id v \<in> used) pool)"
      and p: "pickVideos rnd pool cnt used n =
       (?av @ take (cnt - length ?av) recycled, used \<union> batch_ids ?av, n')"
      using pickVideos_recycle [OF False lt, of rnd n] by blast
    have "set recycled = set (filter (\<lambda>v. v_id v \<in> used) pool)"
      using m by (metis set_mset_mset)
    then have "set (take (cnt - length ?av) recycled) \<inter> set ?av = {}"
      using set_take_subset [of "cnt - length ?av" recycled] by auto
    then show ?thesis
      using p lt by simp
  qed
qed

text \<open>
  C10. A batch of \<open>pickVideos\<close> from a pool without repeated entries has no repeated
  entry, and from a pool without repeated ids no repeated id; the recycled entries are
  never among the entries picked first for the same batch.
\<close>

theorem pickVideos_batch_distinct:
  "(distinct pool \<longrightarrow> distinct (fst (pickVideos rnd pool cnt used n)))
   \<and> (distinct (map v_id pool) \<longrightarrow> distinct (map v_id (fst (pickVideos rnd pool cnt used n))))
   \<and> set (drop (length (take cnt (filter (\<lambda>v. v_id v \<notin> used) pool)))
          (fst (pickVideos rnd pool cnt used n)))
       \<inter> set (take cnt (filter (\<lambda>v. v_id v \<notin> used) pool)) = {}"
  using pickVideos_distinct_map [of "\<lambda>v. v" pool rnd cnt used n]
    pickVideos_distinct_map [of v_id pool rnd cnt used n]
    pickVideos_backfill_fresh [of cnt used pool rnd n]
  by simp

theorem pickVideos_batch_distinct_witness:
  "distinct (map v_id six_shorts)
   \<and> fst (pickVideos rnd_zero six_shorts 4 {''a'', ''b'', ''c'', ''d''} 0)
      = map (\<lambda>i. mk_video i ''Shorts'' False) [''e'', ''f'', ''d'', ''c'']
   \<and> distinct (map v_id (fst (pickVideos rnd_zero six_shorts 4 {''a'', ''b'', ''c'', ''d''} 0)))"
proof -
  have d: "distinct (map v_id six_shorts)"
    by (simp add: six_shorts_def mk_video_def)
  have b: "fst (pickVideos rnd_zero six_shorts 4 {''a'', ''b'', ''c'', ''d''} 0)
      = map (\<lambda>i. mk_video i ''Shorts'' False) [''e'', ''f'', ''d'', ''c'']"
    by (simp add: pickVideos_def Let_def js_sort_def recycle_cmp_def rnd_zero_def
        six_shorts_def mk_video_def)
  have "distinct (map v_id (fst (pickVideos rnd_zero six_shorts 4 {''a'', ''b'', ''c'', ''d''} 0)))"
    using pickVideos_batch_distinct [of six_shorts rnd_zero 4 "{''a'', ''b'', ''c'', ''d''}" 0] d
    by blast
  then show ?thesis
    using d b by blast
qed

section \<open>Allocator: batches of one pass share no id while nothing is recycled\<close>




























section \<open>Circular scroll buffer: the display list\<close>

text \<open>
  C6, as amended. A list of five or more videos is spread three times in both variants
  of \<open>InteractiveMarquee\<close>; a shorter list five times in src/unnamed/part_003 and four
  times in src/MainContent.tsx. The lengths follow; the empty list stays empty.
\<close>

theorem displayVideos_copies:
  "displayVideos_p3 videos = concat (replicate (if length videos < 5 then 5 else 3) videos)
   \<and> displayVideos videos = concat (replicate (if length videos < 5 then 4 else 3) videos)
   \<and> length (displayVideos_p3 videos) = (if length videos < 5 then 5 else 3) * length videos
   \<and> length (displayVideos videos) = (if length videos < 5 then 4 else 3) * length videos"
  by (simp add: displayVideos_def displayVideos_p3_def numeral_eq_Suc)

theorem displayVideos_copies_witness:
  "length (displayVideos_p3 [''A'', ''B'', ''C'']) = 15
   \<and> length (displayVideos [''A'', ''B'', ''C'']) = 12
   \<and> length (displayVideos_p3 [''A'', ''B'', ''C'', ''D'', ''E'']) = 15"
proof -
  have "length (displayVideos_p3 [''A'', ''B'', ''C''])
      = (if length [''A'', ''B'', ''C''] < 5 then 5 else 3) * length [''A'', ''B'', ''C'']"
    and "length (displayVideos [''A'', ''B'', ''C''])
      = (if length [''A'', ''B'', ''C''] < 5 then 4 else 3) * length [''A'', ''B'', ''C'']"
    using displayVideos_copies [of "[''A'', ''B'', ''C'']"] by blast+
  moreover have "length (displayVideos_p3 [''A'', ''B'', ''C'', ''D'', ''E''])
      = (if length [''A'', ''B'', ''C'', ''D'', ''E''] < 5 then 5 else 3)
        * length [''A'', ''B'', ''C'', ''D'', ''E'']"
    using displayVideos_copies [of "[''A'', ''B'', ''C'', ''D'', ''E'']"] by blast
  ultimately show ?thesis
    by simp
qed

text \<open>
  C6 as stated fails for src/MainContent.tsx: three videos give a display list of
  four copies, of length 12.
\<close>

theorem displayVideos_copies_counterexample:
  "displayVideos [''A'', ''B'', ''C'']
     = [''A'', ''B'', ''C'', ''A'', ''B'', ''C'', ''A'', ''B'', ''C'', ''A'', ''B'', ''C'']
   \<and> length (displayVideos [''A'', ''B'', ''C'']) = 12"
  by (simp add: displayVideos_def)

section \<open>Circular scroll buffer: the wrap reset\<close>

text \<open>A frame moves the offset by the speed, and by a third of the width more or less
  when it resets.\<close>

lemma animate_offsets:
  "scrollWidth (animate d s c) = scrollWidth c
   \<and> scrollLeft (animate d s c) \<in>
       {scrollLeft c, scrollLeft c + s, scrollLeft c + s - scrollWidth c / 3,
        scrollLeft c + s + scrollWidth c / 3}"
  by (simp add: animate_def Let_def)

lemma animate_p3_offsets:
  "scrollWidth (animate_p3 d s c) = scrollWidth c
   \<and> scrollLeft (animate_p3 d s c) \<in>
       {scrollLeft c, scrollLeft c + s, scrollLeft c + s - scrollWidth c / 3,
        scrollLeft c + s + scrollWidth c / 3}"
  by (simp add: animate_p3_def Let_def)

text \<open>
  With three copies laid edge to edge, a third of the surface is the width of the
  source list, and the surface shows the same a third further on.
\<close>

lemma content_from_skip:
  assumes "0 \<le> x" and "0 < item_width l" and "0 \<le> gap l"
  shows "content_from l (xs @ ys) (x + real (length xs) * (item_width l + gap l))
           = content_from l ys x"
  using assms(1)
proof (induction xs arbitrary: x)
  case Nil
  show ?case by simp
next
  case (Cons v xs)
  let ?X = "x + real (length (v # xs)) * (item_width l + gap l)"
  have "0 \<le> real (length xs) * (item_width l + gap l)"
    using assms(2,3) by simp
  then have big: "item_width l \<le> ?X"
    using Cons.prems assms(2,3) by (simp add: algebra_simps)
  have shifted: "?X - (item_width l + gap l) = x + real (length xs) * (item_width l + gap l)"
    by (simp add: algebra_simps)
  have "content_from l ((v # xs) @ ys) ?X = content_from l (xs @ ys) (?X - (item_width l + gap l))"
    using big assms(2) by simp
  also have "\<dots> = content_from l ys x"
    unfolding shifted using Cons.IH [OF Cons.prems] .
  finally show ?case .
qed

lemma content_from_prefix:
  assumes "gap l = 0" and "x < real (length ys) * item_width l"
  shows "content_from l (ys @ zs) x = content_from l ys x"
  using assms(2)
proof (induction ys arbitrary: x)
  case Nil
  then show ?case by (cases zs) simp_all
next
  case (Cons y ys)
  have "x - item_width l < real (length ys) * item_width l"
    using Cons.prems by (simp add: algebra_simps)
  then show ?case
    using Cons.IH [of "x - item_width l"] assms(1) by simp
qed

lemma triple_period:
  assumes "gap l = 0" and "pad l = 0" and "0 < item_width l"
    and "0 \<le> x" and "x < 2 * real (length xs) * item_width l"
  shows "content_at l (xs @ xs @ xs) (x + real (length xs) * item_width l)
           = content_at l (xs @ xs @ xs) x"
proof -
  have "content_from l (xs @ xs @ xs) (x + real (length xs) * (item_width l + gap l))
      = content_from l (xs @ xs) x"
    using content_from_skip [of x l xs "xs @ xs"] assms by simp
  moreover have "content_from l ((xs @ xs) @ xs) x = content_from l (xs @ xs) x"
    using content_from_prefix [of l x "xs @ xs" xs] assms by (simp add: algebra_simps)
  ultimately show ?thesis
    using assms(1,2) by (simp add: content_at_def)
qed

lemma triple_surface_third:
  assumes "gap l = 0" and "pad l = 0"
  shows "surface_width l (xs @ xs @ xs) / 3 = real (length xs) * item_width l"
  using assms by (simp add: surface_width_def algebra_simps)

lemma wrap_seamless_three_copies:
  assumes "5 \<le> length videos" and "gap l = 0" and "pad l = 0" and "0 < item_width l"
    and "0 < s"
    and "scrollWidth c = surface_width l (displayVideos videos)"
    and "scrollWidth c / 3 * 2 \<le> scrollLeft c + s"
    and "0 \<le> p" and "scrollLeft c + s + p < scrollWidth c"
  shows "content_at l (displayVideos videos) (scrollLeft (animate False s c) + p)
           = content_at l (displayVideos videos) (scrollLeft c + s + p)
       \<and> content_at l (displayVideos_p3 videos) (scrollLeft (animate_p3 False s c) + p)
           = content_at l (displayVideos_p3 videos) (scrollLeft c + s + p)"
proof -
  let ?n = "real (length videos) * item_width l"
  have ne: "videos \<noteq> []"
    using assms(1) by auto
  have dv: "displayVideos videos = videos @ videos @ videos"
    and dv3: "displayVideos_p3 videos = videos @ videos @ videos"
    using assms(1) ne by (simp_all add: displayVideos_def displayVideos_p3_def)
  have third: "scrollWidth c / 3 = ?n"
    using triple_surface_third [of l videos] assms(2,3,6) dv by simp
  have "0 < real (length videos)"
    using ne by simp
  then have pos: "0 < ?n"
    using assms(4) by (rule mult_pos_pos)
  then have w: "0 < scrollWidth c"
    using third by linarith
  have new: "scrollLeft (animate False s c) = scrollLeft c + s - ?n"
    using assms(5,7) w third by (simp add: animate_def Let_def)
  have new3: "scrollLeft (animate_p3 False s c) = scrollLeft c + s - ?n"
    using assms(5,7) w third by (simp add: animate_p3_def Let_def)
  let ?x = "scrollLeft c + s - ?n + p"
  have x0: "0 \<le> ?x"
    using assms(7,8) third pos by linarith
  have x1: "?x < 2 * real (length videos) * item_width l"
    using assms(9) third by linarith
  have "content_at l (videos @ videos @ videos) (?x + ?n)
      = content_at l (videos @ videos @ videos) ?x"
    using triple_period [OF assms(2,3,4) x0 x1] .
  moreover have "?x + ?n = scrollLeft c + s + p"
    by simp
  ultimately have "content_at l (videos @ videos @ videos) (scrollLeft c + s + p)
      = content_at l (videos @ videos @ videos) ?x"
    by simp
  then show ?thesis
    unfolding new new3 dv dv3 by simp
qed

text \<open>
  C7 fails on a source list of three videos, in both variants, even with the items laid
  edge to edge. In src/unnamed/part_003 the surface of 15 items is 1440 wide; the frame
  that reaches the offset 960 resets it by a third, 480, which is five items and not
  a multiple of the three items of the source list: the left edge of the window showed
  the start of B and now shows the start of C. In src/MainContent.tsx the surface of 12
  items is 1152 wide; the frame that reaches 768 resets by 384, four items: the left
  edge showed the start of C and now shows the start of B.
\<close>

theorem carousel_wrap_jump:
  "animate_p3 False (4 / 5)
      \<lparr>scrollLeft = 4796 / 5,
       scrollWidth = surface_width edge_to_edge (displayVideos_p3 [''A'', ''B'', ''C''])\<rparr>
     = \<lparr>scrollLeft = 480, scrollWidth = 1440\<rparr>
   \<and> content_at edge_to_edge (displayVideos_p3 [''A'', ''B'', ''C'']) 960 = Some (''B'', 0)
   \<and> content_at edge_to_edge (displayVideos_p3 [''A'', ''B'', ''C'']) 480 = Some (''C'', 0)
   \<and> animate False (4 / 5)
      \<lparr>scrollLeft = 3836 / 5,
       scrollWidth = surface_width edge_to_edge (displayVideos [''A'', ''B'', ''C''])\<rparr>
     = \<lparr>scrollLeft = 384, scrollWidth = 1152\<rparr>
   \<and> content_at edge_to_edge (displayVideos [''A'', ''B'', ''C'']) 768 = Some (''C'', 0)
   \<and> content_at edge_to_edge (displayVideos [''A'', ''B'', ''C'']) 384 = Some (''B'', 0)"
  by (simp add: animate_def animate_p3_def surface_width_def displayVideos_def
      displayVideos_p3_def content_at_def edge_to_edge_def)

text \<open>
  With the gap and the padding of the container's classes, a third of the surface is
  not the width of the source list even for three copies: five videos, 1656 wide, reset
  from 1104 to 552, from the start of A into a gap.
\<close>

lemma carousel_wrap_jump_with_gaps:
  "surface_width with_gaps (displayVideos_p3 [''A'', ''B'', ''C'', ''D'', ''E'']) = 1656
   \<and> content_at with_gaps (displayVideos_p3 [''A'', ''B'', ''C'', ''D'', ''E'']) 1104
       = Some (''A'', 0)
   \<and> content_at with_gaps (displayVideos_p3 [''A'', ''B'', ''C'', ''D'', ''E'']) 552 = None"
  by (simp add: surface_width_def displayVideos_p3_def content_at_def with_gaps_def)

section \<open>Prefetch cache: warming never throws and skips single failures\<close>

lemma cache_keys_put: "set (cache_keys (cache_put c url b)) = insert url (set (cache_keys c))"
  by (auto simp: cache_keys_def cache_put_def)

lemma map_of_hit_key: "map_of c url = Some m \<Longrightarrow> url \<in> set (cache_keys c)"
  by (auto simp: cache_keys_def dest: map_of_SomeD intro: image_eqI [where x = "(url, m)"])

lemma preloadVideoChunk_result:
  "\<exists>flag c'. preloadVideoChunk e url c = Inr (flag, c')
     \<and> set (cache_keys c') = set (cache_keys c) \<union> (if cacheable e url then {url} else {})"
proof (cases "url = [] \<or> \<not> startsWith url ''http''")
  case True
  then show ?thesis
    by (auto simp: preloadVideoChunk_def cacheable_def)
next
  case guard: False
  show ?thesis
  proof (cases "storage_fails e Open \<or> storage_fails e (Match url)")
    case True
    then show ?thesis
      using guard by (auto simp: preloadVideoChunk_def preloadVideoChunk_try_def cacheable_def)
  next
    case st: False
    show ?thesis
    proof (cases "map_of c url")
      case (Some m)
      then have "preloadVideoChunk e url c = Inr (True, c)"
        using guard st by (simp add: preloadVideoChunk_def preloadVideoChunk_try_def)
      moreover have "url \<in> set (cache_keys c)"
        using Some by (rule map_of_hit_key)
      ultimately show ?thesis
        by auto
    next
      case None
      show ?thesis
      proof (cases "fetch e url")
        case no: None
        then show ?thesis
          using guard st None
          by (auto simp: preloadVideoChunk_def preloadVideoChunk_try_def cacheable_def)
      next
        case (Some r)
        show ?thesis
        proof (cases "ok r \<or> status r = 206")
          case True
          then show ?thesis
            using guard st None Some
            by (auto simp: preloadVideoChunk_def preloadVideoChunk_try_def cacheable_def
                cache_keys_put)
        next
          case False
          then show ?thesis
            using guard st None Some
            by (auto simp: preloadVideoChunk_def preloadVideoChunk_try_def cacheable_def)
        qed
      qed
    qed
  qed
qed

lemma settle_all_keys:
  "set (cache_keys (settle_all e vs c))
     = set (cache_keys c) \<union> {u \<in> video_url ` set vs. cacheable e u}"
proof (induction vs arbitrary: c)
  case Nil
  show ?case by simp
next
  case (Cons v vs)
  show ?case
  proof (cases "video_url v = []")
    case True
    then have "\<not> cacheable e (video_url v)"
      by (simp add: cacheable_def)
    then show ?thesis
      using True Cons.IH [of c] by auto
  next
    case False
    obtain flag c' where r: "preloadVideoChunk e (video_url v) c = Inr (flag, c')"
      and k: "set (cache_keys c') = set (cache_keys c)
          \<union> (if cacheable e (video_url v) then {video_url v} else {})"
      using preloadVideoChunk_result [of e "video_url v" c] by blast
    have "settle_all e (v # vs) c = settle_all e vs c'"
      using False r by simp
    then show ?thesis
      using Cons.IH [of c'] k by auto
  qed
qed

lemma bufferNext_try_result:
  assumes "url \<noteq> []" and "startsWith url ''http''"
  shows "case bufferNext_try e url c of
     Inl x \<Rightarrow> \<not> cacheable_seq e url
   | Inr c' \<Rightarrow> set (cache_keys c') = set (cache_keys c)
        \<union> (if cacheable_seq e url then {url} else {})"
  using assms
  by (auto simp: bufferNext_try_def cacheable_seq_def cache_keys_put split: option.splits)

lemma bufferNext_keys:
  "set (cache_keys (bufferNext e vs c))
     = set (cache_keys c) \<union> {u \<in> video_url ` set vs. cacheable_seq e u}"
proof (induction vs arbitrary: c)
  case Nil
  show ?case by simp
next
  case (Cons v vs)
  show ?case
  proof (cases "video_url v = [] \<or> \<not> startsWith (video_url v) ''http''")
    case True
    then have "\<not> cacheable_seq e (video_url v)"
      by (auto simp: cacheable_seq_def)
    then show ?thesis
      using True Cons.IH [of c] by auto
  next
    case guard: False
    show ?thesis
    proof (cases "bufferNext_try e (video_url v) c")
      case (Inl x)
      then have "\<not> cacheable_seq e (video_url v)"
        using bufferNext_try_result [of "video_url v" e c] guard by simp
      then show ?thesis
        using guard Inl Cons.IH [of c] by auto
    next
      case (Inr c')
      then have k: "set (cache_keys c') = set (cache_keys c)
          \<union> (if cacheable_seq e (video_url v) then {video_url v} else {})"
        using bufferNext_try_result [of "video_url v" e c] guard by simp
      have "bufferNext e (v # vs) c = bufferNext e vs c'"
        using guard Inr by simp
      then show ?thesis
        using Cons.IH [of c'] k by auto
    qed
  qed
qed

text \<open>
  C8. For every list of videos, store and environment, the promise of
  \<open>initSmartBuffering\<close> resolves (both variants), and the store then holds, besides
  what it held before, exactly the URLs among the first five videos whose own fetch
  and store calls succeed: a failure of one entry does not touch the others.
\<close>

theorem warm_never_throws:
  "(\<exists>c'. initSmartBuffering e videos c = Inr c'
      \<and> set (cache_keys c') = set (cache_keys c)
          \<union> (if onLine e then {u \<in> video_url ` set (take 5 videos). cacheable e u} else {}))
   \<and> (\<exists>c'. initSmartBuffering_seq e videos c = Inr c'
      \<and> set (cache_keys c') = set (cache_keys c)
          \<union> (if onLine e then {u \<in> video_url ` set (take 5 videos). cacheable_seq e u} else {}))"
proof -
  have "set (cache_keys (settle_all e (take 5 videos) c))
      = set (cache_keys c) \<union> {u \<in> video_url ` set (take 5 videos). cacheable e u}"
    by (rule settle_all_keys)
  moreover have "set (cache_keys (bufferNext e (take 5 videos) c))
      = set (cache_keys c) \<union> {u \<in> video_url ` set (take 5 videos). cacheable_seq e u}"
    by (rule bufferNext_keys)
  ultimately show ?thesis
    by (auto simp: initSmartBuffering_def initSmartBuffering_seq_def)
qed

lemma third_fails_cacheable:
  "{u \<in> video_url ` set (take 5 five_videos). cacheable third_fails u}
     = {url_of ''u1'', url_of ''u2'', url_of ''u4'', url_of ''u5''}"
  "{u \<in> video_url ` set (take 5 five_videos). cacheable_seq third_fails u}
     = {url_of ''u1'', url_of ''u2'', url_of ''u4'', url_of ''u5''}"
  by (auto simp: five_videos_def mk_video_def url_of_def cacheable_def cacheable_seq_def
      third_fails_def startsWith_def ok_def)

theorem warm_never_throws_witness:
  "(\<exists>c'. initSmartBuffering third_fails five_videos [] = Inr c'
      \<and> set (cache_keys c') = {url_of ''u1'', url_of ''u2'', url_of ''u4'', url_of ''u5''})
   \<and> (\<exists>c'. initSmartBuffering_seq third_fails five_videos [] = Inr c'
      \<and> set (cache_keys c') = {url_of ''u1'', url_of ''u2'', url_of ''u4'', url_of ''u5''})
   \<and> fetch third_fails (url_of ''u3'') = None"
proof -
  have on: "onLine third_fails"
    and f: "fetch third_fails (url_of ''u3'') = None"
    and ks: "set (cache_keys []) = {}"
    by (simp_all add: third_fails_def cache_keys_def)
  show ?thesis
    using warm_never_throws [of third_fails five_videos "[]"] f
    unfolding third_fails_cacheable ks using on by simp
qed

section \<open>Prefetch cache: the maintenance pass\<close>












end
